theory Spec2Isabelle
  imports Main
begin

section \<open>Strings and integers of the Go runtime\<close>

text \<open>
  Go's \<open>int\<close> is 64 bits wide on the platforms this program runs on, and its addition
  wraps around. Every \<open>int\<close> of the program is a block height or a slice index, and
  the only arithmetic on them is \<open>checkpoint + (i - c)\<close>, \<open>l + 1\<close> and \<open>tail++\<close>.
  The values are modelled on \<open>int\<close>. The two increments \<open>l + 1\<close> and \<open>tail++\<close> are
  modelled with the wrap-around written out (\<open>wrap64\<close>). The sum
  \<open>checkpoint + (i - c)\<close> of \<open>logHeight\<close> is only compared with a height \<open>v\<close> that lies
  above a non-negative checkpoint: when it exceeds \<open>2^63 - 1\<close> it differs from \<open>v\<close> with
  and without the wrap-around (for a slice of fewer than \<open>2^63\<close> elements), so it is
  modelled without; only the number reported as wanted differs then. \<open>Atoi\<close> keeps
  the 64-bit range check of \<open>strconv.Atoi\<close>, so every height read from the log lies in
  that range.
\<close>

definition wrap64 :: "int \<Rightarrow> int" where
  "wrap64 x = (x + 9223372036854775808) mod 18446744073709551616 - 9223372036854775808"

text \<open>\<open>strings.Split(s, sep)\<close> and \<open>bytes.Split(s, sep)\<close> for a separator of one byte:
  the pieces between the separators, \<open>[""]\<close> for the empty string.\<close>

fun Split :: "char \<Rightarrow> string \<Rightarrow> string list" where
  "Split sep [] = [[]]"
| "Split sep (c # cs) =
     (if c = sep then [] # Split sep cs
      else (case Split sep cs of [] \<Rightarrow> [[c]] | w # ws \<Rightarrow> (c # w) # ws))"

definition isDigit :: "char \<Rightarrow> bool" where
  "isDigit ch = (48 \<le> (of_char ch :: int) \<and> (of_char ch :: int) \<le> 57)"

fun parseDigits :: "int \<Rightarrow> string \<Rightarrow> int option" where
  "parseDigits n [] = Some n"
| "parseDigits n (ch # s) =
     (if isDigit ch then parseDigits (n * 10 + (of_char ch - 48)) s else None)"

text \<open>\<open>strconv.Atoi\<close>: an optional sign, then at least one decimal digit and nothing
  else; a value outside the 64-bit range is an error (\<open>None\<close>).\<close>

definition Atoi :: "string \<Rightarrow> int option" where
  "Atoi s0 =
     (case s0 of
        [] \<Rightarrow> None
      | ch # rest \<Rightarrow>
          (let neg = (ch = CHR ''-'');
               s = (if ch = CHR ''-'' \<or> ch = CHR ''+'' then rest else s0)
           in if s = [] then None
              else (case parseDigits 0 s of
                      None \<Rightarrow> None
                    | Some n \<Rightarrow>
                        if neg then (if n \<le> 9223372036854775808 then Some (- n) else None)
                        else (if n < 9223372036854775808 then Some n else None))))"

definition digitChar :: "int \<Rightarrow> char" where
  "digitChar d = char_of (48 + d)"

function digits :: "int \<Rightarrow> string" where
  "digits n = (if n < 10 then [digitChar n] else digits (n div 10) @ [digitChar (n mod 10)])"
  by pat_completeness auto
termination
  by (relation "measure nat") auto

declare digits.simps [simp del]

text \<open>The verb \<open>%d\<close> of \<open>fmt\<close> on an \<open>int\<close>.\<close>

definition Itoa :: "int \<Rightarrow> string" where
  "Itoa i = (if i < 0 then CHR ''-'' # digits (- i) else digits i)"

text \<open>\<open>strings.Contains(s, substr)\<close>.\<close>

fun hasPrefix :: "string \<Rightarrow> string \<Rightarrow> bool" where
  "hasPrefix s [] = True"
| "hasPrefix [] (p # ps) = False"
| "hasPrefix (c # cs) (p # ps) = (c = p \<and> hasPrefix cs ps)"

fun Contains :: "string \<Rightarrow> string \<Rightarrow> bool" where
  "Contains [] substr = (substr = [])"
| "Contains (c # cs) substr = (hasPrefix (c # cs) substr \<or> Contains cs substr)"

section \<open>The activity log: \<open>log.go\<close>\<close>

text \<open>
  The failures of \<open>logHeight\<close>. All but the last are errors returned with the value
  \<open>-1\<close>: \<open>Inl e\<close> stands for the Go result \<open>(-1, e)\<close> and \<open>Inr v\<close> for \<open>(v, nil)\<close>.
  \<open>IndexOutOfRange n\<close> is the run-time panic of \<open>l[3]\<close> on a \<open>bxs:\<close> or \<open>txs:\<close> line
  (index \<open>n\<close>) of fewer than four fields.
\<close>

datatype failure =
    ReadError
  | ParseError nat
  | BlocksOutOfOrder int int int
  | TransactionsOutOfOrder int int int
  | CrashDetected int int
  | IndexOutOfRange nat

text \<open>The body of the scan loop on the line of index \<open>n\<close>: \<open>b\<close> and \<open>t\<close> are the
  heights collected so far for the blocks and the transactions. \<open>Split\<close> gives at
  least one piece, so \<open>l[0]\<close> is always there.\<close>

definition scanLine :: "nat \<Rightarrow> string \<Rightarrow> int list \<Rightarrow> int list \<Rightarrow> failure + int list \<times> int list" where
  "scanLine n line b t =
     (let l = Split CHR '' '' line in
      if l ! 0 = ''bxs:'' then
        (if length l \<le> 3 then Inl (IndexOutOfRange n)
         else (case Atoi (l ! 3) of
                 None \<Rightarrow> Inl (ParseError (n + 1))
               | Some i \<Rightarrow> Inr (b @ [i], t)))
      else if l ! 0 = ''txs:'' then
        (if length l \<le> 3 then Inl (IndexOutOfRange n)
         else (case Atoi (l ! 3) of
                 None \<Rightarrow> Inl (ParseError (n + 1))
               | Some i \<Rightarrow> Inr (b, t @ [i])))
      else if l ! 0 = ''std:'' then
        (if length l > 4 \<and> l ! 4 = ''invalid'' then
           (case Atoi (l ! 3) of
              None \<Rightarrow> Inl (ParseError (n + 1))
            | Some i \<Rightarrow> Inr (b @ [i], t @ [i]))
         else Inr (b, t))
      else Inr (b, t))"

fun collect :: "nat \<Rightarrow> string list \<Rightarrow> int list \<Rightarrow> int list \<Rightarrow> failure + int list \<times> int list" where
  "collect n [] b t = Inr (b, t)"
| "collect n (line # lines) b t =
     (case scanLine n line b t of
        Inl e \<Rightarrow> Inl e
      | Inr (b', t') \<Rightarrow> collect (n + 1) lines b' t')"

text \<open>The heights of the two streams as the scan of a log's content collects them.\<close>

definition streams :: "string \<Rightarrow> failure + int list \<times> int list" where
  "streams content = collect 0 (Split CHR ''\<newline>'' content) [] []"

text \<open>The walk over a sorted stream: \<open>c\<close> is the index of the checkpoint (\<open>-1\<close> at the
  start), \<open>i\<close> the index of \<open>v\<close>. \<open>Some (got, want)\<close> is the first height out of order.\<close>

fun walk :: "int \<Rightarrow> int \<Rightarrow> int \<Rightarrow> int list \<Rightarrow> (int \<times> int) option" where
  "walk checkpoint c i [] = None"
| "walk checkpoint c i (v # vs) =
     (if v < checkpoint then walk checkpoint c (i + 1) vs
      else if v = checkpoint then walk checkpoint i (i + 1) vs
      else if v \<noteq> checkpoint + (i - c) then Some (v, checkpoint + (i - c))
      else walk checkpoint c (i + 1) vs)"

text \<open>
  \<open>dumpIntSliceToFile\<close>: nothing is written for an empty slice; otherwise the file is
  truncated and holds one value per line. The writes to the file system are the output
  of the model, a list of file names with the content written; opening the file and
  writing to it are taken to succeed (\<open>logHeight\<close> ignores the error that
  \<open>dumpIntSliceToFile\<close> returns).
\<close>

type_synonym writes = "(string \<times> string) list"

definition dumpText :: "int list \<Rightarrow> string" where
  "dumpText slice = concat (map (\<lambda>v. Itoa v @ ''\<newline>'') slice)"

definition dumpIntSliceToFile :: "int list \<Rightarrow> string \<Rightarrow> writes" where
  "dumpIntSliceToFile slice file = (if slice = [] then [] else [(file, dumpText slice)])"

text \<open>
  The source holds the same block twice, once for \<open>b\<close> and once for \<open>t\<close>:
  \<open>lastOf\<close> is the value of \<open>lastBxs\<close> (\<open>lastTxs\<close>), and \<open>outOfOrder\<close> the check
  of the sorted stream against the checkpoint, skipped when the checkpoint is negative
  or not below the last height. \<open>b.Sort()\<close> is \<open>sort b\<close>.
\<close>

definition lastOf :: "int list \<Rightarrow> int" where
  "lastOf b = (if b \<noteq> [] then last (sort b) else 0)"

definition outOfOrder :: "int \<Rightarrow> int list \<Rightarrow> (int \<times> int) option" where
  "outOfOrder checkpoint b =
     (if b \<noteq> [] \<and> 0 \<le> checkpoint \<and> checkpoint < last (sort b)
      then walk checkpoint (- 1) 0 (sort b) else None)"

text \<open>The part of \<open>logHeight\<close> after the scan. \<open>sort.Sort(sort.Reverse(b))\<close> on the
  sorted slice is its reversal.\<close>

definition validate :: "string \<Rightarrow> int list \<Rightarrow> int list \<Rightarrow> int \<Rightarrow> (failure + int) \<times> writes" where
  "validate logFile b t checkpoint =
     (let lastBxs = lastOf b in
      case outOfOrder checkpoint b of
        Some (v, want) \<Rightarrow>
          (Inl (BlocksOutOfOrder checkpoint v want),
           dumpIntSliceToFile (rev (sort b)) (logFile @ ''.bxs-dump''))
      | None \<Rightarrow>
          (let lastTxs = lastOf t in
           case outOfOrder checkpoint t of
             Some (v, want) \<Rightarrow>
               (Inl (TransactionsOutOfOrder checkpoint v want),
                dumpIntSliceToFile (rev (sort t)) (logFile @ ''.txs-dump''))
           | None \<Rightarrow>
               if (lastBxs > lastTxs \<and> checkpoint \<ge> lastBxs) \<or>
                  (lastTxs > lastBxs \<and> checkpoint \<ge> lastTxs)
               then (Inr (- 1), [])
               else if lastBxs \<noteq> lastTxs then
                 (Inl (CrashDetected lastBxs lastTxs),
                  dumpIntSliceToFile (rev (sort b)) (logFile @ ''.bxs-dump'') @
                  dumpIntSliceToFile (rev (sort t)) (logFile @ ''.txs-dump''))
               else (Inr lastBxs, [])))"

text \<open>\<open>logHeight(file, checkpoint)\<close>: \<open>content\<close> is what \<open>os.ReadFile(file)\<close> gives,
  \<open>None\<close> when it fails; \<open>logFile\<close> is the global the dump files are named after.\<close>

definition logHeight :: "string \<Rightarrow> string option \<Rightarrow> int \<Rightarrow> (failure + int) \<times> writes" where
  "logHeight logFile content checkpoint =
     (case content of
        None \<Rightarrow> (Inl ReadError, [])
      | Some bytes \<Rightarrow>
          (case streams bytes of
             Inl e \<Rightarrow> (Inl e, [])
           | Inr (b, t) \<Rightarrow> validate logFile b t checkpoint))"

section \<open>Start-up: \<open>init\<close> and \<open>initBC\<close>\<close>

text \<open>A Go \<open>error\<close>: \<open>context.Canceled\<close>, or any other error with the text that
  \<open>Error()\<close> gives.\<close>

datatype err = Canceled | Failed string

fun errorText :: "err \<Rightarrow> string" where
  "errorText Canceled = ''context canceled''"
| "errorText (Failed msg) = msg"


text \<open>The three calls of \<open>stdLogger.Panicf\<close> and \<open>Panicln\<close> in \<open>initBC\<close>.\<close>

datatype fatal =
    NoChainHeight err
  | NoLogHeight failure
  | LogAheadOfChain

text \<open>
  \<open>initBC\<close>: \<open>bcHeight\<close> is what the call of \<open>bcHeight\<close> returns, \<open>content\<close> what
  reading the log file gives. The result is the gap \<open>(gapTail, gapHead)\<close> or the
  panic, with the dump files \<open>logHeight\<close> wrote; \<open>gapTail = l + 1\<close> is Go's addition.
  The records of the standard logger are left out.
\<close>

definition initBC :: "err + int \<Rightarrow> string \<Rightarrow> string option \<Rightarrow> int \<Rightarrow> (fatal + int \<times> int) \<times> writes" where
  "initBC bcHeight logFile content checkpoint =
     (case bcHeight of
        Inl e \<Rightarrow> (Inl (NoChainHeight e), [])
      | Inr h \<Rightarrow>
          (case logHeight logFile content checkpoint of
             (Inl e, w) \<Rightarrow> (Inl (NoLogHeight e), w)
           | (Inr l0, w) \<Rightarrow>
               (let l = (if l0 < checkpoint then checkpoint else l0)
                in if l > h then (Inl LogAheadOfChain, w)
                   else (Inr (wrap64 (l + 1), h), w))))"

section \<open>The workers: \<open>reqWorker\<close> and \<open>perWorker\<close>\<close>

text \<open>
  The three loggers write to the same file. A record is the logger and the formatted
  message; the \<open>log\<close> package puts the logger's prefix and the UTC date and time in
  front of the message and ends the line.
\<close>

datatype logger = bxsLogger | txsLogger | stdLogger

type_synonym records = "(logger \<times> string) list"

fun prefix :: "logger \<Rightarrow> string" where
  "prefix bxsLogger = ''bxs: ''"
| "prefix txsLogger = ''txs: ''"
| "prefix stdLogger = ''std: ''"

definition logLine :: "logger \<Rightarrow> string \<Rightarrow> string \<Rightarrow> string \<Rightarrow> string" where
  "logLine lg date time msg =
     prefix lg @ date @ '' '' @ time @ '' '' @ msg @
     (if msg = [] \<or> last msg \<noteq> CHR ''\<newline>'' then ''\<newline>'' else [])"

record request =
  height :: int

text \<open>The field \<open>datatype\<close> of the source is \<open>datatype'\<close> here; a collection handle is
  the name \<open>initDB\<close> opened it with.\<close>

record persist =
  height :: int
  datatype' :: string
  raw :: string
  col :: string

text \<open>
  One call of \<open>bcClient.request\<close> either gives the body of the response or fails with
  an error text; after a failure that is retried, \<open>done\<close> tells whether the context is
  cancelled before the nap is over. The node is the sequence of these outcomes for each
  block height and for each transactions query.
\<close>

datatype attempt = Response string | Refused string bool

record bcClient =
  blockResponses :: "string \<Rightarrow> attempt list"
  txsResponses :: "string \<Rightarrow> attempt list"

text \<open>
  \<open>blockAt\<close>: the result, with the records of the retries. The result is \<open>None\<close> when
  the loop is still retrying after the last of the given attempts.
\<close>

fun blockAt :: "string \<Rightarrow> string \<Rightarrow> attempt list \<Rightarrow> (err + string) option \<times> records" where
  "blockAt h napTime [] = (None, [])"
| "blockAt h napTime (Response res # rest) = (Some (Inr res), [])"
| "blockAt h napTime (Refused e done # rest) =
     (if Contains e ''400 Bad Request'' then (Some (Inl (Failed e)), [])
      else
        (let m = (stdLogger, ''error getting block at height '' @ h @ '' (will retry in '' @
                    napTime @ ''): '' @ e)
         in if done then (Some (Inl Canceled), [m])
            else (case blockAt h napTime rest of (r, ms) \<Rightarrow> (r, m # ms))))"

text \<open>
  \<open>transactionsAt\<close>: \<open>unmarshal\<close> stands for \<open>json.Unmarshal\<close> into the pagination
  structure, giving the error text or the field \<open>total\<close>. The value \<open>Inr None\<close> is the
  result \<open>(nil, nil)\<close> for no transactions.
\<close>

fun transactionsAt ::
  "(string \<Rightarrow> string + string) \<Rightarrow> string \<Rightarrow> string \<Rightarrow> attempt list \<Rightarrow>
     (err + string option) option \<times> records" where
  "transactionsAt unmarshal h napTime [] = (None, [])"
| "transactionsAt unmarshal h napTime (Response res # rest) =
     (case unmarshal res of
        Inl e \<Rightarrow> (Some (Inl (Failed e)), [])
      | Inr tot \<Rightarrow>
          if tot = ''0'' then (Some (Inr None), []) else (Some (Inr (Some res)), []))"
| "transactionsAt unmarshal h napTime (Refused e done # rest) =
     (let m = (stdLogger, ''error getting transactions at height '' @ h @ '' (will retry in '' @
                 napTime @ ''): '' @ e)
      in if done then (Some (Inl Canceled), [m])
         else (case transactionsAt unmarshal h napTime rest of (r, ms) \<Rightarrow> (r, m # ms)))"

text \<open>How the work on a request or a unit ends when the worker does not go on to the
  next one: a panic (of \<open>stdLogger.Panicf\<close>, whose line on the standard stream is not
  among the records), or a retry loop that has not returned.\<close>

datatype panic =
    BlockUnretryable int err
  | TransactionsUnretryable int err
  | StoreFailed string int err
  | UnknownDatatype persist

datatype stop = Panicked panic | Retrying

text \<open>
  The body of the loop of \<open>reqWorker\<close> for one request: the units sent to \<open>perChan\<close>,
  the records logged, and \<open>None\<close> when the worker goes on to the next request.
\<close>

definition reqStep ::
  "bcClient \<Rightarrow> (string \<Rightarrow> string + string) \<Rightarrow> string \<Rightarrow> string \<Rightarrow> string \<Rightarrow> request \<Rightarrow>
     persist list \<times> records \<times> stop option" where
  "reqStep bcc unmarshal bxs txs napTime r =
     (let h = request.height r in
      case blockAt (Itoa h) napTime (blockResponses bcc (Itoa h)) of
        (None, ms) \<Rightarrow> ([], ms, Some Retrying)
      | (Some (Inl e), ms) \<Rightarrow>
          if e = Canceled then ([], ms, None)
          else if Contains (errorText e) (''height '' @ Itoa h @ '' is not available'') then
            ([],
             ms @ [(bxsLogger, Itoa h @ '' unavailable (skipping): '' @ errorText e),
                   (txsLogger, Itoa h @ '' unavailable (skipping): '' @ errorText e)],
             None)
          else ([], ms, Some (Panicked (BlockUnretryable h e)))
      | (Some (Inr b), ms) \<Rightarrow>
          (let block = \<lparr>height = h, datatype' = ''block'', raw = b, col = bxs\<rparr> in
           case transactionsAt unmarshal (Itoa h) napTime (txsResponses bcc (Itoa h)) of
             (None, ms') \<Rightarrow> ([block], ms @ ms', Some Retrying)
           | (Some (Inl e), ms') \<Rightarrow>
               ([block], ms @ ms', Some (Panicked (TransactionsUnretryable h e)))
           | (Some (Inr None), ms') \<Rightarrow>
               ([block], ms @ ms' @ [(txsLogger, Itoa h @ '' empty (skipping)'')], None)
           | (Some (Inr (Some t)), ms') \<Rightarrow>
               ([block, \<lparr>height = h, datatype' = ''transactions'', raw = t, col = txs\<rparr>],
                ms @ ms', None)))"

text \<open>\<open>reqWorker\<close> on the requests it receives from \<open>reqChan\<close> until the channel is
  closed: all units sent, all records logged, and how it stopped early if it did.\<close>

fun reqWorker ::
  "bcClient \<Rightarrow> (string \<Rightarrow> string + string) \<Rightarrow> string \<Rightarrow> string \<Rightarrow> string \<Rightarrow> request list \<Rightarrow>
     persist list \<times> records \<times> stop option" where
  "reqWorker bcc unmarshal bxs txs napTime [] = ([], [], None)"
| "reqWorker bcc unmarshal bxs txs napTime (r # reqChan) =
     (case reqStep bcc unmarshal bxs txs napTime r of
        (ps, ms, Some e) \<Rightarrow> (ps, ms, Some e)
      | (ps, ms, None) \<Rightarrow>
          (case reqWorker bcc unmarshal bxs txs napTime reqChan of
             (ps', ms', e) \<Rightarrow> (ps @ ps', ms @ ms', e)))"

text \<open>
  \<open>store\<close>: \<open>invalid\<close> stands for \<open>json.Unmarshal\<close> of the raw bytes, giving the error
  text if there is one; an attempt of \<open>InsertOne\<close> gives the inserted identifier
  (\<open>Response\<close>) or fails.
\<close>

fun insertOne :: "string \<Rightarrow> attempt list \<Rightarrow> (err + string) option \<times> records" where
  "insertOne napTime [] = (None, [])"
| "insertOne napTime (Response oid # rest) = (Some (Inr oid), [])"
| "insertOne napTime (Refused e done # rest) =
     (let m = (stdLogger, ''error inserting into database (will retry in '' @ napTime @ ''): '' @ e)
      in if done then (Some (Inl Canceled), [m])
         else (case insertOne napTime rest of (r, ms) \<Rightarrow> (r, m # ms)))"

definition store ::
  "(string \<Rightarrow> string option) \<Rightarrow> string \<Rightarrow> string \<Rightarrow> attempt list \<Rightarrow> (err + string) option \<times> records" where
  "store invalid napTime doc db =
     (case invalid doc of
        Some e \<Rightarrow> (Some (Inl (Failed e)), [])
      | None \<Rightarrow> insertOne napTime db)"

text \<open>The body of the loop of \<open>perWorker\<close> for one unit; \<open>db\<close> gives the attempts of
  \<open>InsertOne\<close> for a collection and a document.\<close>

definition perStep ::
  "(string \<Rightarrow> string option) \<Rightarrow> string \<Rightarrow> (string \<Rightarrow> string \<Rightarrow> attempt list) \<Rightarrow> persist \<Rightarrow>
     records \<times> stop option" where
  "perStep invalid napTime db p =
     (case store invalid napTime (raw p) (db (col p) (raw p)) of
        (None, ms) \<Rightarrow> (ms, Some Retrying)
      | (Some (Inl e), ms) \<Rightarrow>
          if e = Canceled then (ms, None)
          else (ms, Some (Panicked (StoreFailed (datatype' p) (height p) e)))
      | (Some (Inr oid), ms) \<Rightarrow>
          if datatype' p = ''block'' then
            (ms @ [(bxsLogger, Itoa (height p) @ '' -> '' @ oid)], None)
          else if datatype' p = ''transactions'' then
            (ms @ [(txsLogger, Itoa (height p) @ '' -> '' @ oid)], None)
          else (ms, Some (Panicked (UnknownDatatype p))))"

text \<open>\<open>perWorker\<close> on the units it receives from \<open>perChan\<close> until the channel is
  closed.\<close>

fun perWorker ::
  "(string \<Rightarrow> string option) \<Rightarrow> string \<Rightarrow> (string \<Rightarrow> string \<Rightarrow> attempt list) \<Rightarrow> persist list \<Rightarrow>
     records \<times> stop option" where
  "perWorker invalid napTime db [] = ([], None)"
| "perWorker invalid napTime db (p # perChan) =
     (case perStep invalid napTime db p of
        (ms, Some e) \<Rightarrow> (ms, Some e)
      | (ms, None) \<Rightarrow>
          (case perWorker invalid napTime db perChan of (ms', e) \<Rightarrow> (ms @ ms', e)))"

section \<open>The loop of \<open>main\<close>\<close>

text \<open>
  The state of the loop that queues the heights: \<open>tail\<close> and \<open>head\<close>, the requests
  sent to \<open>reqChan\<close> since the process started, whether the context is cancelled
  (\<open>ctx.Err() != nil\<close>) and whether \<open>main\<close> has panicked.
\<close>

record orchestrator =
  tail :: int
  head :: int
  queued :: "request list"
  cancelled :: bool
  panicked :: bool

text \<open>
  One step of the loop. While the context is not cancelled: with \<open>tail \<le> head\<close> the
  inner loop sends the request for \<open>tail\<close> and increments \<open>tail\<close> (Go's \<open>tail++\<close>); with \<open>tail > head\<close>
  the process naps and then sets \<open>head\<close> to the height \<open>h\<close> that \<open>bcHeight\<close> returns,
  whatever it is, or panics when \<open>bcHeight\<close> fails. The signal handler cancels the
  context at any moment. No step is left once the context is cancelled or \<open>main\<close> has
  panicked: the loops are over.
\<close>

inductive step :: "orchestrator \<Rightarrow> orchestrator \<Rightarrow> bool" where
  enqueue:
    "\<not> cancelled s \<Longrightarrow> \<not> panicked s \<Longrightarrow> tail s \<le> head s \<Longrightarrow>
     step s (s\<lparr>queued := queued s @ [\<lparr>request.height = tail s\<rparr>],
               tail := wrap64 (tail s + 1)\<rparr>)"
| awaken:
    "\<not> cancelled s \<Longrightarrow> \<not> panicked s \<Longrightarrow> tail s > head s \<Longrightarrow>
     step s (s\<lparr>head := h\<rparr>)"
| awaken_panic:
    "\<not> cancelled s \<Longrightarrow> \<not> panicked s \<Longrightarrow> tail s > head s \<Longrightarrow>
     step s (s\<lparr>panicked := True\<rparr>)"
| cancel:
    "\<not> cancelled s \<Longrightarrow> \<not> panicked s \<Longrightarrow>
     step s (s\<lparr>cancelled := True\<rparr>)"

code_pred step .

text \<open>A step after which \<open>head\<close> is below the largest \<open>int\<close>.\<close>

definition stepBelow :: "orchestrator \<Rightarrow> orchestrator \<Rightarrow> bool" where
  "stepBelow s s' = (step s s' \<and> head s' < 9223372036854775807)"

section \<open>Auxiliary notions of the proofs\<close>

text \<open>
  What the walk adds to the expected height of a stream, beyond the distance from the
  checkpoint: nothing when the stream holds the checkpoint (\<open>c\<close> is then its index),
  and otherwise the number of heights below the checkpoint (\<open>c\<close> stays \<open>-1\<close>).
\<close>

definition offset :: "int \<Rightarrow> int list \<Rightarrow> int" where
  "offset cp xs = (if cp \<in> set xs then 0 else int (length (filter (\<lambda>v. v < cp) xs)))"


subsection \<open>Logs used as concrete inputs\<close>

text \<open>Heights 6 and 7 on both streams, nothing else.\<close>

definition log_6_7 :: string where
  "log_6_7 =
     ''bxs: 2022/06/01 10:00:00 6 -> 629f1a\<newline>'' @
     ''txs: 2022/06/01 10:00:00 6 -> 629f1b\<newline>'' @
     ''bxs: 2022/06/01 10:00:01 7 -> 629f1c\<newline>'' @
     ''txs: 2022/06/01 10:00:01 7 empty (skipping)\<newline>''"

text \<open>Heights 3 to 6 on both streams, written in the order two workers finished them,
  among records of the standard logger.\<close>

definition log_3_to_6 :: string where
  "log_3_to_6 =
     ''std: 2022/06/01 10:00:00 cosmos-scraper v0.3.0-beta started\<newline>'' @
     ''bxs: 2022/06/01 10:00:01 4 -> 629f2a\<newline>'' @
     ''bxs: 2022/06/01 10:00:01 3 -> 629f2b\<newline>'' @
     ''txs: 2022/06/01 10:00:01 3 -> 629f2c\<newline>'' @
     ''txs: 2022/06/01 10:00:02 4 empty (skipping)\<newline>'' @
     ''bxs: 2022/06/01 10:00:02 6 -> 629f2d\<newline>'' @
     ''bxs: 2022/06/01 10:00:02 5 -> 629f2e\<newline>'' @
     ''txs: 2022/06/01 10:00:03 5 -> 629f2f\<newline>'' @
     ''txs: 2022/06/01 10:00:03 6 -> 629f30\<newline>''"

text \<open>Heights 3 and 6 on both streams: 4 and 5 are missing.\<close>

definition log_3_6 :: string where
  "log_3_6 =
     ''bxs: 2022/06/01 10:00:00 3 -> 629f3a\<newline>'' @
     ''txs: 2022/06/01 10:00:00 3 -> 629f3b\<newline>'' @
     ''bxs: 2022/06/01 10:00:05 6 -> 629f3c\<newline>'' @
     ''txs: 2022/06/01 10:00:05 6 -> 629f3d\<newline>''"



text \<open>One block, of height 5, and no transactions.\<close>

definition log_b5 :: string where
  "log_b5 = ''bxs: 2022/06/01 10:00:00 5 -> 629f6a\<newline>''"

text \<open>Heights 5 and 6 on both streams, and the two records a second pass over height 6
  appends.\<close>

definition log_5_6 :: string where
  "log_5_6 =
     ''bxs: 2022/06/01 10:00:00 5 -> 629f7a\<newline>'' @
     ''txs: 2022/06/01 10:00:00 5 -> 629f7b\<newline>'' @
     ''bxs: 2022/06/01 10:00:01 6 -> 629f7c\<newline>'' @
     ''txs: 2022/06/01 10:00:01 6 -> 629f7d\<newline>''"

definition again_6 :: string where
  "again_6 =
     ''bxs: 2022/06/01 11:00:00 6 -> 629f7e\<newline>'' @
     ''txs: 2022/06/01 11:00:00 6 -> 629f7f\<newline>''"

text \<open>Heights 4 to 6 on both streams, and the two records a second pass over height 4
  appends.\<close>

definition log_4_to_6 :: string where
  "log_4_to_6 =
     ''bxs: 2022/06/01 10:00:00 4 -> 629f8a\<newline>'' @
     ''txs: 2022/06/01 10:00:00 4 -> 629f8b\<newline>'' @
     ''bxs: 2022/06/01 10:00:01 5 -> 629f8c\<newline>'' @
     ''txs: 2022/06/01 10:00:01 5 -> 629f8d\<newline>'' @
     ''bxs: 2022/06/01 10:00:02 6 -> 629f8e\<newline>'' @
     ''txs: 2022/06/01 10:00:02 6 -> 629f8f\<newline>''"

definition again_4 :: string where
  "again_4 =
     ''bxs: 2022/06/01 11:00:00 4 -> 629f90\<newline>'' @
     ''txs: 2022/06/01 11:00:00 4 empty (skipping)\<newline>''"

subsection \<open>Nodes used as concrete inputs\<close>

text \<open>A node that has pruned height 1, serves height 2 without transactions and
  height 3 with one, after one failed request.\<close>

definition pruned :: string where
  "pruned = ''error making request http://localhost:1317/cosmos/base/tendermint/v1beta1/blocks/1: 400 Bad Request: { code: 3, message: height 1 is not available, lowest height is 2: invalid request, details: [ ]}''"

definition node :: bcClient where
  "node = \<lparr>
     blockResponses = (\<lambda>h. if h = ''1'' then [Refused pruned False]
                    else if h = ''2'' then [Response ''block 2'']
                    else [Refused ''connection refused'' False, Response ''block 3'']),
     txsResponses = (\<lambda>h. if h = ''2'' then [Response ''none''] else [Response ''one transaction'']) \<rparr>"

text \<open>The field \<open>total\<close> of the pagination in that node's responses.\<close>

definition totalOf :: "string \<Rightarrow> string + string" where
  "totalOf res = (if res = ''none'' then Inr ''0'' else Inr ''1'')"

text \<open>A database that takes every document at the first attempt.\<close>

definition database :: "string \<Rightarrow> string \<Rightarrow> attempt list" where
  "database c doc = [Response ''629fa0'']"

text \<open>Every document is well-formed JSON.\<close>

definition wellFormed :: "string \<Rightarrow> string option" where
  "wellFormed doc = None"

text \<open>The largest \<open>int\<close> as the height of both streams.\<close>

definition log_max :: string where
  "log_max =
     ''bxs: 2022/06/01 10:00:00 9223372036854775807 -> 629f9a\<newline>'' @
     ''txs: 2022/06/01 10:00:00 9223372036854775807 -> 629f9b\<newline>''"

text \<open>The loop of \<open>main\<close> started with the gap from the largest \<open>int\<close> to itself, and
  the state two requests later.\<close>

definition start_at_max :: orchestrator where
  "start_at_max =
     \<lparr>tail = 9223372036854775807, head = 9223372036854775807, queued = [],
      cancelled = False, panicked = False\<rparr>"

definition after_wrap :: orchestrator where
  "after_wrap =
     \<lparr>tail = - 9223372036854775807, head = 9223372036854775807,
      queued = [\<lparr>request.height = 9223372036854775807\<rparr>,
                \<lparr>request.height = - 9223372036854775808\<rparr>],
      cancelled = False, panicked = False\<rparr>"

text \<open>The requests for the heights 1, 2 and 3.\<close>

definition requests_1_2_3 :: "request list" where
  "requests_1_2_3 = [\<lparr>request.height = 1\<rparr>, \<lparr>request.height = 2\<rparr>, \<lparr>request.height = 3\<rparr>]"
section \<open>Properties of the recovery validator\<close>

lemma walk_below:
  "\<forall>v\<in>set lo. v < cp \<Longrightarrow> walk cp c i (lo @ ys) = walk cp c (i + int (length lo)) ys"
  by (induction lo arbitrary: i) (auto simp: algebra_simps)

lemma walk_equal:
  "\<forall>v\<in>set eq. v = cp \<Longrightarrow> eq \<noteq> [] \<Longrightarrow>
   walk cp c i (eq @ ys) = walk cp (i + int (length eq) - 1) (i + int (length eq)) ys"
proof (induction eq arbitrary: c i)
  case Nil
  then show ?case by simp
next
  case (Cons v eq)
  show ?case
  proof (cases "eq = []")
    case True
    with Cons.prems show ?thesis by simp
  next
    case False
    with Cons.prems Cons.IH [of i "i + 1"] show ?thesis by (simp add: algebra_simps)
  qed
qed

lemma walk_above:
  "\<forall>v\<in>set hi. cp < v \<Longrightarrow>
   (walk cp c i hi = None) = (hi = [cp + (i - c) .. cp + (i - c) + int (length hi) - 1])"
proof (induction hi arbitrary: i)
  case Nil
  then show ?case by simp
next
  case (Cons v hi)
  have rec: "[cp + (i - c) .. cp + (i - c) + int (length (v # hi)) - 1]
        = (cp + (i - c)) # [cp + (i + 1 - c) .. cp + (i + 1 - c) + int (length hi) - 1]"
    by (subst upto_rec1) (auto simp: algebra_simps)
  from Cons.prems have "cp < v" and "\<forall>v\<in>set hi. cp < v" by auto
  with Cons.IH [of "i + 1"] rec show ?case by auto
qed

lemma sorted_three_parts:
  "sorted xs \<Longrightarrow>
   xs = filter (\<lambda>v. v < cp) xs @ filter (\<lambda>v. v = cp) xs @ filter (\<lambda>v. cp < v) (xs :: int list)"
proof (induction xs)
  case Nil
  then show ?case by simp
next
  case (Cons x xs)
  then have le: "\<forall>y\<in>set xs. x \<le> y" and IH: "xs = filter (\<lambda>v. v < cp) xs @ filter (\<lambda>v. v = cp) xs @ filter (\<lambda>v. cp < v) xs"
    by auto
  consider "x < cp" | "x = cp" | "cp < x" by linarith
  then show ?case
  proof cases
    case 1
    with IH show ?thesis by simp
  next
    case 2
    with le have "filter (\<lambda>v. v < cp) xs = []" by (auto simp: filter_empty_conv)
    with 2 IH show ?thesis by simp
  next
    case 3
    with le have "filter (\<lambda>v. v < cp) xs = []" "filter (\<lambda>v. v = cp) xs = []"
      by (auto simp: filter_empty_conv)
    with 3 IH show ?thesis by simp
  qed
qed

lemma walk_sorted:
  assumes "sorted xs"
  shows "(walk cp (- 1) 0 xs = None) =
         (filter (\<lambda>v. cp < v) xs =
            [cp + offset cp xs + 1 .. cp + offset cp xs + int (length (filter (\<lambda>v. cp < v) xs))])"
proof -
  let ?lo = "filter (\<lambda>v. v < cp) xs" and ?eq = "filter (\<lambda>v. v = cp) xs"
  let ?hi = "filter (\<lambda>v. cp < v) xs"
  have xs: "xs = ?lo @ ?eq @ ?hi" using assms by (rule sorted_three_parts)
  have lo: "walk cp (- 1) 0 (?lo @ ?eq @ ?hi) = walk cp (- 1) (int (length ?lo)) (?eq @ ?hi)"
    using walk_below [of ?lo cp "- 1" 0 "?eq @ ?hi"] by simp
  have hi: "\<forall>v\<in>set ?hi. cp < v" by simp
  show ?thesis
  proof (cases "cp \<in> set xs")
    case True
    then have ne: "?eq \<noteq> []" by (auto simp: filter_empty_conv)
    have "walk cp (- 1) (int (length ?lo)) (?eq @ ?hi)
            = walk cp (int (length ?lo) + int (length ?eq) - 1) (int (length ?lo) + int (length ?eq)) ?hi"
      using walk_equal [OF _ ne] by simp
    with lo xs have "walk cp (- 1) 0 xs
            = walk cp (int (length ?lo) + int (length ?eq) - 1) (int (length ?lo) + int (length ?eq)) ?hi"
      by metis
    with walk_above [OF hi] True show ?thesis by (simp add: offset_def algebra_simps)
  next
    case False
    then have "?eq = []" by (auto simp: filter_empty_conv)
    with lo xs have "walk cp (- 1) 0 xs = walk cp (- 1) (int (length ?lo)) ?hi" by (metis append_Nil)
    with walk_above [OF hi] False show ?thesis by (simp add: offset_def algebra_simps)
  qed
qed

lemma offset_sort: "offset cp (sort xs) = offset cp xs"
proof -
  have "length (filter (\<lambda>v. v < cp) (sort xs)) = length (filter (\<lambda>v. v < cp) xs)"
    by (simp add: filter_sort)
  then show ?thesis by (simp add: offset_def)
qed

lemma sorted_last_Max: "sorted xs \<Longrightarrow> xs \<noteq> [] \<Longrightarrow> last xs = Max (set (xs :: int list))"
proof (induction xs)
  case Nil
  then show ?case by simp
next
  case (Cons x xs)
  show ?case
  proof (cases "xs = []")
    case True
    then show ?thesis by simp
  next
    case False
    with Cons have "last xs = Max (set xs)" and "\<forall>y\<in>set xs. x \<le> y" by auto
    moreover from False have "Max (set xs) \<in> set xs" by simp
    ultimately have "x \<le> Max (set xs)" by blast
    with False \<open>last xs = Max (set xs)\<close> show ?thesis by (simp add: max_def)
  qed
qed

lemma lastOf_Max: "b \<noteq> [] \<Longrightarrow> lastOf b = Max (set b)"
proof -
  assume ne: "b \<noteq> []"
  then have "length (sort b) \<noteq> 0" by simp
  then have "sort b \<noteq> []" by (simp del: length_sort)
  with sorted_last_Max [of "sort b"] ne show ?thesis by (simp add: lastOf_def)
qed

lemma lastOf_eqI: "M \<in> set b \<Longrightarrow> \<forall>v\<in>set b. v \<le> M \<Longrightarrow> lastOf b = M"
proof -
  assume M: "M \<in> set b" and le: "\<forall>v\<in>set b. v \<le> M"
  then have "b \<noteq> []" by auto
  moreover have "Max (set b) = M" using M le by (intro Max_eqI) auto
  ultimately show ?thesis by (simp add: lastOf_Max)
qed

lemma outOfOrder_skipped: "checkpoint < 0 \<or> lastOf b \<le> checkpoint \<Longrightarrow> outOfOrder checkpoint b = None"
  by (auto simp: outOfOrder_def lastOf_def)

lemma outOfOrder_None_iff:
  assumes "0 \<le> cp" "cp < lastOf b"
  shows "(outOfOrder cp b = None) =
         (sort (filter (\<lambda>v. cp < v) b) =
            [cp + offset cp b + 1 .. cp + offset cp b + int (length (filter (\<lambda>v. cp < v) b))])"
proof -
  from assms have ne: "b \<noteq> []" by (auto simp: lastOf_def)
  with assms have "outOfOrder cp b = walk cp (- 1) 0 (sort b)"
    by (simp add: outOfOrder_def lastOf_def)
  moreover have "length (filter (\<lambda>v. cp < v) (sort b)) = length (filter (\<lambda>v. cp < v) b)"
    by (simp add: filter_sort)
  ultimately show ?thesis
    using walk_sorted [of "sort b" cp] by (simp add: offset_sort filter_sort)
qed

lemma offset_anchored: "cp \<in> set b \<or> (\<forall>v\<in>set b. cp \<le> v) \<Longrightarrow> offset cp b = 0"
  by (auto simp: offset_def filter_empty_conv)

lemma run_members:
  assumes "sort (filter (\<lambda>v. C < v) b) = [C + 1 .. M]"
  shows "(v \<in> set b \<and> C < v) = (C + 1 \<le> v \<and> v \<le> M)"
proof -
  have "set (sort (filter (\<lambda>v. C < v) b)) = set [C + 1 .. M]"
    by (simp only: assms)
  then have "(v \<in> set (filter (\<lambda>v. C < v) b)) = (v \<in> set [C + 1 .. M])"
    by (simp only: set_sort)
  then show ?thesis by simp
qed

lemma run_last:
  assumes "C < M" "sort (filter (\<lambda>v. C < v) b) = [C + 1 .. M]"
  shows "lastOf b = M"
proof (rule lastOf_eqI)
  from run_members [OF assms(2), of M] assms(1) show "M \<in> set b" by simp
  show "\<forall>v\<in>set b. v \<le> M"
  proof
    fix v assume "v \<in> set b"
    with run_members [OF assms(2), of v] assms(1) show "v \<le> M" by (cases "C < v") simp_all
  qed
qed

lemma run_in_order:
  assumes "0 \<le> C" "C < M" "sort (filter (\<lambda>v. C < v) b) = [C + 1 .. M]"
    and "C \<in> set b \<or> (\<forall>v\<in>set b. C \<le> v)"
  shows "outOfOrder C b = None"
proof -
  have last: "lastOf b = M" using assms(2,3) by (rule run_last)
  have "length (filter (\<lambda>v. C < v) b) = length (sort (filter (\<lambda>v. C < v) b))" by simp
  also have "\<dots> = nat (M - C)" using assms(3) by simp
  finally have "int (length (filter (\<lambda>v. C < v) b)) = M - C" using assms(2) by simp
  with assms(3,4) outOfOrder_None_iff [of C b] assms(1,2) last
  show ?thesis by (simp add: offset_anchored)
qed


lemma gap_out_of_order:
  assumes "0 \<le> C" "C < h" "h < lastOf b" "h \<notin> set b"
    and "C \<in> set b \<or> (\<forall>v\<in>set b. C \<le> v)"
  shows "outOfOrder C b \<noteq> None"
proof
  assume none: "outOfOrder C b = None"
  let ?n = "int (length (filter (\<lambda>v. C < v) b))"
  from assms have lt: "C < lastOf b" by simp
  from none outOfOrder_None_iff [OF assms(1) lt] offset_anchored [OF assms(5)]
  have run: "sort (filter (\<lambda>v. C < v) b) = [C + 1 .. C + ?n]" by simp
  from lt assms(1) have "b \<noteq> []" by (auto simp: lastOf_def)
  then have "lastOf b \<in> set b" by (simp add: lastOf_Max)
  with run_members [OF run, of "lastOf b"] lt have "lastOf b \<le> C + ?n" by simp
  with run_members [OF run, of h] assms(2,3) have "h \<in> set b" by simp
  with assms(4) show False by simp
qed

lemma validate_blocks_out_of_order:
  assumes "outOfOrder C b = Some (v, w)"
  shows "validate logFile b t C =
           (Inl (BlocksOutOfOrder C v w), [(logFile @ ''.bxs-dump'', dumpText (rev (sort b)))])"
proof -
  from assms have "b \<noteq> []" by (auto simp: outOfOrder_def split: if_splits)
  then have "length (sort b) \<noteq> 0" by simp
  then have "sort b \<noteq> []" by (simp del: length_sort)
  with assms show ?thesis by (simp add: validate_def dumpIntSliceToFile_def)
qed

lemma validate_transactions_out_of_order:
  assumes "outOfOrder C b = None" "outOfOrder C t = Some (v, w)"
  shows "validate logFile b t C =
           (Inl (TransactionsOutOfOrder C v w), [(logFile @ ''.txs-dump'', dumpText (rev (sort t)))])"
proof -
  from assms have "t \<noteq> []" by (auto simp: outOfOrder_def split: if_splits)
  then have "length (sort t) \<noteq> 0" by simp
  then have "sort t \<noteq> []" by (simp del: length_sort)
  with assms show ?thesis by (simp add: validate_def dumpIntSliceToFile_def)
qed

lemma logHeight_gap_in_blocks:
  assumes "streams content = Inr (b, t)"
    and "0 \<le> C" "C < h" "h < lastOf b" "h \<notin> set b"
    and "C \<in> set b \<or> (\<forall>v\<in>set b. C \<le> v)"
  shows "\<exists>v w. logHeight logFile (Some content) C =
           (Inl (BlocksOutOfOrder C v w), [(logFile @ ''.bxs-dump'', dumpText (rev (sort b)))])"
proof -
  from gap_out_of_order [OF assms(2-6)] obtain v w where "outOfOrder C b = Some (v, w)" by auto
  then show ?thesis
    using assms(1) by (auto simp: logHeight_def validate_blocks_out_of_order)
qed

lemma logHeight_gap_in_transactions:
  assumes "streams content = Inr (b, t)"
    and "outOfOrder C b = None"
    and "0 \<le> C" "C < h" "h < lastOf t" "h \<notin> set t"
    and "C \<in> set t \<or> (\<forall>v\<in>set t. C \<le> v)"
  shows "\<exists>v w. logHeight logFile (Some content) C =
           (Inl (TransactionsOutOfOrder C v w), [(logFile @ ''.txs-dump'', dumpText (rev (sort t)))])"
proof -
  from gap_out_of_order [OF assms(3-7)] obtain v w where "outOfOrder C t = Some (v, w)" by auto
  then show ?thesis
    using assms(1,2) by (auto simp: logHeight_def validate_transactions_out_of_order)
qed

lemma sort_not_Nil: "b \<noteq> [] \<Longrightarrow> sort b \<noteq> []"
proof -
  assume "b \<noteq> []"
  then have "length (sort b) \<noteq> 0" by simp
  then show ?thesis by (simp del: length_sort)
qed

lemma dump_descending:
  "dumpIntSliceToFile (rev (sort b)) file = (if b = [] then [] else [(file, dumpText (rev (sort b)))])"
  by (simp add: dumpIntSliceToFile_def sort_not_Nil)

lemma validate_in_order:
  assumes "outOfOrder cp b = None" "outOfOrder cp t = None"
  shows "validate logFile b t cp =
          (if lastOf b \<noteq> lastOf t \<and> max (lastOf b) (lastOf t) \<le> cp then (Inr (- 1), [])
           else if lastOf b \<noteq> lastOf t then
             (Inl (CrashDetected (lastOf b) (lastOf t)),
              (if b = [] then [] else [(logFile @ ''.bxs-dump'', dumpText (rev (sort b)))]) @
              (if t = [] then [] else [(logFile @ ''.txs-dump'', dumpText (rev (sort t)))]))
           else (Inr (lastOf b), []))"
  using assms by (auto simp: validate_def dump_descending Let_def)

lemma validate_success:
  assumes "validate logFile b t cp = (Inr r, w)"
  shows "outOfOrder cp b = None \<and> outOfOrder cp t = None"
  using assms by (auto simp: validate_def Let_def split: option.splits if_splits)

lemma lastOf_again: "H \<in> set b \<Longrightarrow> lastOf (b @ [H]) = lastOf b"
proof -
  assume H: "H \<in> set b"
  then have "b \<noteq> []" by auto
  moreover from H have "set (b @ [H]) = set b" by auto
  ultimately show ?thesis by (simp add: lastOf_Max)
qed

lemma outOfOrder_again:
  assumes "H \<in> set b" and "outOfOrder cp b = None"
    and "cp < 0 \<or> lastOf b \<le> cp \<or> (H \<le> cp \<and> cp \<in> set b)"
  shows "outOfOrder cp (b @ [H]) = None"
proof (cases "cp < 0 \<or> lastOf b \<le> cp")
  case True
  with assms(1) show ?thesis by (auto intro: outOfOrder_skipped simp: lastOf_again)
next
  case False
  with assms(3) have cp: "0 \<le> cp" "cp < lastOf b" and H: "H \<le> cp" and mem: "cp \<in> set b"
    by auto
  from mem have off: "offset cp b = 0" "offset cp (b @ [H]) = 0" by (simp_all add: offset_def)
  from H have flt: "filter (\<lambda>v. cp < v) (b @ [H]) = filter (\<lambda>v. cp < v) b" by simp
  from cp(2) assms(1) have lt: "cp < lastOf (b @ [H])" by (simp add: lastOf_again)
  from assms(2) outOfOrder_None_iff [OF cp] off(1)
  have "sort (filter (\<lambda>v. cp < v) b) = [cp + 1 .. cp + int (length (filter (\<lambda>v. cp < v) b))]"
    by simp
  with outOfOrder_None_iff [OF cp(1) lt] off(2) flt show ?thesis by simp
qed

section \<open>Properties of the strings and of the scan\<close>

lemma Split_not_Nil: "Split c s \<noteq> []"
  by (induction s) (auto split: list.splits)

lemma Split_append_sep: "Split c (xs @ c # ys) = Split c xs @ Split c ys"
proof (induction xs)
  case Nil
  show ?case by simp
next
  case (Cons x xs)
  obtain w ws where "Split c xs = w # ws"
    using Split_not_Nil [of c xs] by (cases "Split c xs") auto
  with Cons show ?case by simp
qed

lemma Split_no_sep: "c \<notin> set xs \<Longrightarrow> Split c xs = [xs]"
  by (induction xs) auto

lemma Split_field: "c \<notin> set w \<Longrightarrow> Split c (w @ c # rest) = w # Split c rest"
  by (simp add: Split_append_sep Split_no_sep)

lemma digitChar_value:
  "0 \<le> d \<Longrightarrow> d < 10 \<Longrightarrow> of_char (digitChar d) = 48 + d"
  by (simp add: digitChar_def)

lemma isDigit_digitChar: "0 \<le> d \<Longrightarrow> d < 10 \<Longrightarrow> isDigit (digitChar d)"
  by (simp add: isDigit_def digitChar_value)

lemma digits_not_Nil: "digits n \<noteq> []"
  by (subst digits.simps) simp

lemma isDigit_digits: "0 \<le> n \<Longrightarrow> c \<in> set (digits n) \<Longrightarrow> isDigit c"
proof (induction n rule: digits.induct)
  case (1 n)
  show ?case
  proof (cases "n < 10")
    case True
    with "1.prems" show ?thesis
      by (subst (asm) digits.simps) (simp add: isDigit_digitChar)
  next
    case False
    then have step: "digits n = digits (n div 10) @ [digitChar (n mod 10)]"
      by (subst digits.simps) simp
    from False have "0 \<le> n div 10" by simp
    with "1.IH" False have "c \<in> set (digits (n div 10)) \<Longrightarrow> isDigit c" by simp
    moreover have "isDigit (digitChar (n mod 10))" by (simp add: isDigit_digitChar)
    ultimately show ?thesis using "1.prems"(2) step by auto
  qed
qed

lemma parseDigits_append:
  "parseDigits a (xs @ ys) = (case parseDigits a xs of None \<Rightarrow> None | Some m \<Rightarrow> parseDigits m ys)"
  by (induction xs arbitrary: a) auto

lemma parseDigits_digits: "0 \<le> n \<Longrightarrow> parseDigits 0 (digits n) = Some n"
proof (induction n rule: digits.induct)
  case (1 n)
  show ?case
  proof (cases "n < 10")
    case True
    with "1.prems" show ?thesis
      by (subst digits.simps) (simp add: isDigit_digitChar digitChar_value)
  next
    case False
    then have step: "digits n = digits (n div 10) @ [digitChar (n mod 10)]"
      by (subst digits.simps) simp
    from False have "0 \<le> n div 10" by simp
    with "1.IH" False have "parseDigits 0 (digits (n div 10)) = Some (n div 10)" by simp
    then show ?thesis
      by (simp add: step parseDigits_append isDigit_digitChar digitChar_value)
  qed
qed

lemma isDigit_not_sign: "isDigit c \<Longrightarrow> c \<noteq> CHR ''-'' \<and> c \<noteq> CHR ''+'' \<and> c \<noteq> CHR '' '' \<and> c \<noteq> CHR ''\<newline>''"
  by (auto simp: isDigit_def)

lemma Atoi_Itoa:
  assumes "- 9223372036854775808 \<le> i" "i < 9223372036854775808"
  shows "Atoi (Itoa i) = Some i"
proof (cases "i < 0")
  case True
  with assms parseDigits_digits [of "- i"] digits_not_Nil [of "- i"] show ?thesis
    by (simp add: Atoi_def Itoa_def)
next
  case False
  then have nn: "0 \<le> i" by simp
  obtain c cs where d: "digits i = c # cs" using digits_not_Nil [of i] by (cases "digits i") auto
  with isDigit_digits [OF nn, of c] have "isDigit c" by simp
  then have "c \<noteq> CHR ''-''" "c \<noteq> CHR ''+''" using isDigit_not_sign by blast+
  with assms False parseDigits_digits [OF nn] d show ?thesis
    by (simp add: Atoi_def Itoa_def)
qed

lemma Itoa_no_blank: "CHR '' '' \<notin> set (Itoa i)" "CHR ''\<newline>'' \<notin> set (Itoa i)"
proof -
  have "c \<in> set (Itoa i) \<Longrightarrow> isDigit c \<or> c = CHR ''-''" for c
    using isDigit_digits [of "- i" c] isDigit_digits [of i c]
    by (auto simp: Itoa_def split: if_splits)
  then show "CHR '' '' \<notin> set (Itoa i)" "CHR ''\<newline>'' \<notin> set (Itoa i)"
    using isDigit_not_sign by fastforce+
qed

lemma collect_append:
  "collect n (ls @ ls') b t =
     (case collect n ls b t of
        Inl e \<Rightarrow> Inl e
      | Inr (b', t') \<Rightarrow> collect (n + length ls) ls' b' t')"
  by (induction ls arbitrary: n b t) (auto split: sum.splits)

lemma scanLine_blank: "scanLine n [] b t = Inr (b, t)"
  by (simp add: scanLine_def)

lemma collect_last_line:
  "collect n [line, []] b t = scanLine n line b t"
  by (auto simp: scanLine_blank split: sum.splits)

lemma streams_append_line:
  assumes "content = [] \<or> last content = CHR ''\<newline>''"
    and "CHR ''\<newline>'' \<notin> set line"
    and "streams content = Inr (b, t)"
  shows "streams (content @ line @ ''\<newline>'') =
           scanLine (length (Split CHR ''\<newline>'' content) - 1) line b t"
proof (cases "content = []")
  case True
  with assms(3) have "b = []" "t = []" by (simp_all add: streams_def scanLine_blank)
  with True assms(2) show ?thesis
    using Split_field [of "CHR ''\<newline>''" line "[]"]
    by (simp add: streams_def collect_last_line del: collect.simps)
next
  case False
  with assms(1) obtain c0 where c0: "content = c0 @ ''\<newline>''"
    by (metis append_butlast_last_id)
  let ?ls = "Split CHR ''\<newline>'' c0"
  have sp: "Split CHR ''\<newline>'' content = ?ls @ [[]]"
    using Split_append_sep [of "CHR ''\<newline>''" c0 "[]"] by (simp add: c0)
  with assms(3) have "collect 0 ?ls [] [] = Inr (b, t)"
    by (auto simp: streams_def collect_append scanLine_blank split: sum.splits)
  moreover have "Split CHR ''\<newline>'' (content @ line @ ''\<newline>'') = ?ls @ [line, []]"
    using Split_append_sep [of "CHR ''\<newline>''" c0 "line @ ''\<newline>''"]
      Split_field [OF assms(2), of "[]"] by (simp add: c0)
  ultimately show ?thesis
    by (simp add: streams_def collect_append collect_last_line sp del: collect.simps)
qed

lemma Split_record:
  assumes "CHR '' '' \<notin> set d" "CHR '' '' \<notin> set tm" "CHR '' '' \<notin> set w"
  shows "Split CHR '' '' (prefix lg @ d @ CHR '' '' # tm @ CHR '' '' # w @ CHR '' '' # rest) =
           butlast (prefix lg) # d # tm # w # Split CHR '' '' rest"
  using assms by (cases lg) (simp_all add: Split_field)

lemma scanLine_record:
  assumes "CHR '' '' \<notin> set d" "CHR '' '' \<notin> set tm"
    and "- 9223372036854775808 \<le> h" "h < 9223372036854775808"
  shows "scanLine n (prefix bxsLogger @ d @ CHR '' '' # tm @ CHR '' '' # Itoa h @ CHR '' '' # rest) b t
           = Inr (b @ [h], t)"
    and "scanLine n (prefix txsLogger @ d @ CHR '' '' # tm @ CHR '' '' # Itoa h @ CHR '' '' # rest) b t
           = Inr (b, t @ [h])"
proof -
  have sp: "Split CHR '' '' (prefix lg @ d @ CHR '' '' # tm @ CHR '' '' # Itoa h @ CHR '' '' # rest) =
           butlast (prefix lg) # d # tm # Itoa h # Split CHR '' '' rest" for lg
    using assms(1,2) Itoa_no_blank(1) by (rule Split_record)
  show "scanLine n (prefix bxsLogger @ d @ CHR '' '' # tm @ CHR '' '' # Itoa h @ CHR '' '' # rest) b t
           = Inr (b @ [h], t)"
    unfolding scanLine_def sp by (simp add: Atoi_Itoa [OF assms(3,4)])
  show "scanLine n (prefix txsLogger @ d @ CHR '' '' # tm @ CHR '' '' # Itoa h @ CHR '' '' # rest) b t
           = Inr (b, t @ [h])"
    unfolding scanLine_def sp by (simp add: Atoi_Itoa [OF assms(3,4)])
qed

lemma scanLine_invalid:
  assumes "CHR '' '' \<notin> set d" "CHR '' '' \<notin> set tm"
    and "- 9223372036854775808 \<le> h" "h < 9223372036854775808"
  shows "scanLine n (prefix stdLogger @ d @ CHR '' '' # tm @ CHR '' '' # Itoa h @ CHR '' '' # ''invalid'') b t
           = Inr (b @ [h], t @ [h])"
proof -
  have sp: "Split CHR '' '' (prefix stdLogger @ d @ CHR '' '' # tm @ CHR '' '' # Itoa h @ CHR '' '' # ''invalid'') =
           butlast (prefix stdLogger) # d # tm # Itoa h # Split CHR '' '' ''invalid''"
    using assms(1,2) Itoa_no_blank(1) by (rule Split_record)
  show ?thesis
    unfolding scanLine_def sp by (simp add: Atoi_Itoa [OF assms(3,4)])
qed

lemma logLine_height:
  "CHR ''\<newline>'' \<notin> set rest \<Longrightarrow>
   logLine lg d tm (Itoa h @ CHR '' '' # rest) =
     (prefix lg @ d @ CHR '' '' # tm @ CHR '' '' # Itoa h @ CHR '' '' # rest) @ ''\<newline>''"
proof -
  assume nl: "CHR ''\<newline>'' \<notin> set rest"
  have "rest \<noteq> [] \<Longrightarrow> last rest \<noteq> CHR ''\<newline>''"
    using nl by (metis last_in_set)
  then show ?thesis by (cases "rest = []") (simp_all add: logLine_def)
qed

lemma streams_append_record:
  assumes "content = [] \<or> last content = CHR ''\<newline>''"
    and "streams content = Inr (b, t)"
    and "\<forall>c\<in>set (d @ tm). c \<noteq> CHR '' '' \<and> c \<noteq> CHR ''\<newline>''"
    and "CHR ''\<newline>'' \<notin> set rest"
    and "- 9223372036854775808 \<le> h" "h < 9223372036854775808"
  shows "streams (content @ logLine bxsLogger d tm (Itoa h @ CHR '' '' # rest)) = Inr (b @ [h], t)"
    and "streams (content @ logLine txsLogger d tm (Itoa h @ CHR '' '' # rest)) = Inr (b, t @ [h])"
proof -
  from assms(3) have bl: "CHR '' '' \<notin> set d" "CHR '' '' \<notin> set tm" by auto
  have nl: "CHR ''\<newline>'' \<notin> set (prefix lg @ d @ CHR '' '' # tm @ CHR '' '' # Itoa h @ CHR '' '' # rest)" for lg
    using assms(3,4) Itoa_no_blank(2) [of h] by (cases lg) auto
  show "streams (content @ logLine bxsLogger d tm (Itoa h @ CHR '' '' # rest)) = Inr (b @ [h], t)"
    using streams_append_line [OF assms(1) nl assms(2), of bxsLogger]
      scanLine_record(1) [OF bl assms(5,6)]
    by (simp only: logLine_height [OF assms(4)])
  show "streams (content @ logLine txsLogger d tm (Itoa h @ CHR '' '' # rest)) = Inr (b, t @ [h])"
    using streams_append_line [OF assms(1) nl assms(2), of txsLogger]
      scanLine_record(2) [OF bl assms(5,6)]
    by (simp only: logLine_height [OF assms(4)])
qed

lemma logLine_ends: "logLine lg d tm msg \<noteq> [] \<and> last (logLine lg d tm msg) = CHR ''\<newline>''"
  by (cases lg) (auto simp: logLine_def)

text \<open>The two records of a pass over a height, appended to a log, add the height to
  both streams.\<close>

lemma streams_append_pass:
  assumes "content = [] \<or> last content = CHR ''\<newline>''"
    and "streams content = Inr (b, t)"
    and "\<forall>c\<in>set (d1 @ t1). c \<noteq> CHR '' '' \<and> c \<noteq> CHR ''\<newline>''"
    and "\<forall>c\<in>set (d2 @ t2). c \<noteq> CHR '' '' \<and> c \<noteq> CHR ''\<newline>''"
    and "CHR ''\<newline>'' \<notin> set rest1" and "CHR ''\<newline>'' \<notin> set rest2"
    and "- 9223372036854775808 \<le> h" and "h < 9223372036854775808"
  shows "streams (content @ logLine bxsLogger d1 t1 (Itoa h @ CHR '' '' # rest1)
                          @ logLine txsLogger d2 t2 (Itoa h @ CHR '' '' # rest2)) =
           Inr (b @ [h], t @ [h])"
proof -
  let ?content = "content @ logLine bxsLogger d1 t1 (Itoa h @ CHR '' '' # rest1)"
  have one: "streams ?content = Inr (b @ [h], t)"
    by (rule streams_append_record(1) [OF assms(1,2,3,5,7,8)])
  have ended: "?content = [] \<or> last ?content = CHR ''\<newline>''"
    using logLine_ends [of bxsLogger d1 t1 "Itoa h @ CHR '' '' # rest1"] by simp
  have "streams (?content @ logLine txsLogger d2 t2 (Itoa h @ CHR '' '' # rest2)) =
          Inr (b @ [h], t @ [h])"
    by (rule streams_append_record(2) [OF ended one assms(4,6,7,8)])
  then show ?thesis by simp
qed

section \<open>Properties of the workers\<close>

lemma reqStep_unavailable:
  assumes "blockAt (Itoa h) napTime (blockResponses bcc (Itoa h)) = (Some (Inl (Failed e)), ms)"
    and "Contains e (''height '' @ Itoa h @ '' is not available'')"
  shows "reqStep bcc unmarshal bxs txs napTime \<lparr>request.height = h\<rparr> =
           ([], ms @ [(bxsLogger, Itoa h @ '' unavailable (skipping): '' @ e),
                      (txsLogger, Itoa h @ '' unavailable (skipping): '' @ e)], None)"
  using assms by (simp add: reqStep_def)

lemma reqStep_empty:
  assumes "blockAt (Itoa h) napTime (blockResponses bcc (Itoa h)) = (Some (Inr blk), ms)"
    and "transactionsAt unmarshal (Itoa h) napTime (txsResponses bcc (Itoa h)) = (Some (Inr None), ms')"
  shows "reqStep bcc unmarshal bxs txs napTime \<lparr>request.height = h\<rparr> =
           ([\<lparr>persist.height = h, datatype' = ''block'', raw = blk, col = bxs\<rparr>],
            ms @ ms' @ [(txsLogger, Itoa h @ '' empty (skipping)'')], None)"
  using assms by (simp add: reqStep_def)

lemma reqStep_both:
  assumes "blockAt (Itoa h) napTime (blockResponses bcc (Itoa h)) = (Some (Inr blk), ms)"
    and "transactionsAt unmarshal (Itoa h) napTime (txsResponses bcc (Itoa h)) = (Some (Inr (Some t)), ms')"
  shows "reqStep bcc unmarshal bxs txs napTime \<lparr>request.height = h\<rparr> =
           ([\<lparr>persist.height = h, datatype' = ''block'', raw = blk, col = bxs\<rparr>,
             \<lparr>persist.height = h, datatype' = ''transactions'', raw = t, col = txs\<rparr>],
            ms @ ms', None)"
  using assms by (simp add: reqStep_def)

lemma reqStep_sent:
  "fst (reqStep bcc unmarshal bxs txs napTime \<lparr>request.height = h\<rparr>) =
     (case fst (blockAt (Itoa h) napTime (blockResponses bcc (Itoa h))) of
        Some (Inr blk) \<Rightarrow>
          (case fst (transactionsAt unmarshal (Itoa h) napTime (txsResponses bcc (Itoa h))) of
             Some (Inr (Some t)) \<Rightarrow>
               [\<lparr>persist.height = h, datatype' = ''block'', raw = blk, col = bxs\<rparr>,
                \<lparr>persist.height = h, datatype' = ''transactions'', raw = t, col = txs\<rparr>]
           | _ \<Rightarrow> [\<lparr>persist.height = h, datatype' = ''block'', raw = blk, col = bxs\<rparr>])
      | _ \<Rightarrow> [])"
proof -
  obtain rb ms where b: "blockAt (Itoa h) napTime (blockResponses bcc (Itoa h)) = (rb, ms)"
    by (cases "blockAt (Itoa h) napTime (blockResponses bcc (Itoa h))") auto
  obtain rt ms' where t: "transactionsAt unmarshal (Itoa h) napTime (txsResponses bcc (Itoa h)) = (rt, ms')"
    by (cases "transactionsAt unmarshal (Itoa h) napTime (txsResponses bcc (Itoa h))") auto
  show ?thesis
    by (simp add: reqStep_def Let_def b t split: option.splits sum.splits)
qed

lemma reqStep_datatype:
  "p \<in> set (fst (reqStep bcc unmarshal bxs txs napTime r)) \<Longrightarrow>
   datatype' p = ''block'' \<or> datatype' p = ''transactions''"
  by (auto simp: reqStep_def Let_def split: prod.splits option.splits sum.splits if_splits)

lemma reqWorker_datatype:
  "p \<in> set (fst (reqWorker bcc unmarshal bxs txs napTime reqChan)) \<Longrightarrow>
   datatype' p = ''block'' \<or> datatype' p = ''transactions''"
proof (induction reqChan)
  case Nil
  then show ?case by simp
next
  case (Cons r reqChan)
  obtain ps ms e where step: "reqStep bcc unmarshal bxs txs napTime r = (ps, ms, e)"
    by (cases "reqStep bcc unmarshal bxs txs napTime r") auto
  then have ps: "q \<in> set ps \<Longrightarrow> datatype' q = ''block'' \<or> datatype' q = ''transactions''" for q
    using reqStep_datatype [of q bcc unmarshal bxs txs napTime r] by simp
  show ?case
  proof (cases e)
    case (Some a)
    with Cons.prems step ps show ?thesis by simp
  next
    case None
    with Cons.prems step have "p \<in> set ps \<or> p \<in> set (fst (reqWorker bcc unmarshal bxs txs napTime reqChan))"
      by (auto split: prod.splits)
    with ps Cons.IH show ?thesis by blast
  qed
qed

lemma perStep_known:
  "datatype' p = ''block'' \<or> datatype' p = ''transactions'' \<Longrightarrow>
   snd (perStep invalid napTime db p) \<noteq> Some (Panicked (UnknownDatatype q))"
  by (auto simp: perStep_def split: prod.splits option.splits sum.splits)

lemma perWorker_known:
  "\<forall>p\<in>set perChan. datatype' p = ''block'' \<or> datatype' p = ''transactions'' \<Longrightarrow>
   snd (perWorker invalid napTime db perChan) \<noteq> Some (Panicked (UnknownDatatype q))"
proof (induction perChan)
  case Nil
  then show ?case by simp
next
  case (Cons p perChan)
  obtain ms e where step: "perStep invalid napTime db p = (ms, e)"
    by (cases "perStep invalid napTime db p") auto
  from Cons.prems perStep_known [of p invalid napTime db q] step
  have e: "e \<noteq> Some (Panicked (UnknownDatatype q))" by simp
  show ?case
  proof (cases e)
    case (Some a)
    with e step show ?thesis by simp
  next
    case None
    with step Cons show ?thesis by (auto split: prod.splits)
  qed
qed

section \<open>Properties of the loop of \<open>main\<close>\<close>

lemma wrap64_id:
  "- 9223372036854775808 \<le> x \<Longrightarrow> x \<le> 9223372036854775807 \<Longrightarrow> wrap64 x = x"
  by (simp add: wrap64_def)

lemma step_queue:
  assumes "step s s'"
    and "map request.height (queued s) = [t0 .. tail s - 1]" and "t0 \<le> tail s"
    and "head s < 9223372036854775807" and "- 9223372036854775808 \<le> t0"
  shows "map request.height (queued s') = [t0 .. tail s' - 1] \<and> t0 \<le> tail s'"
  using assms(1)
proof (cases rule: step.cases)
  case enqueue
  have "[t0 .. tail s] = [t0 .. tail s - 1] @ [tail s]"
    using assms(3) by (rule upto_rec2)
  moreover have "wrap64 (tail s + 1) = tail s + 1"
    using enqueue(4) assms(3,4,5) by (intro wrap64_id) simp_all
  ultimately show ?thesis using enqueue assms(2,3) by simp
qed (simp_all add: assms)

lemma run_queue:
  assumes "rtranclp stepBelow s0 s" and "queued s0 = []"
    and "head s0 < 9223372036854775807" and "- 9223372036854775808 \<le> tail s0"
  shows "map request.height (queued s) = [tail s0 .. tail s - 1] \<and> tail s0 \<le> tail s \<and>
         head s < 9223372036854775807"
  using assms
proof (induction rule: rtranclp_induct)
  case base
  then show ?case by simp
next
  case (step s s')
  then have inv: "map request.height (queued s) = [tail s0 .. tail s - 1]" "tail s0 \<le> tail s"
      "head s < 9223372036854775807"
    by simp_all
  from step.hyps(2) have st: "step s s'" and hd: "head s' < 9223372036854775807"
    by (simp_all add: stepBelow_def)
  from step_queue [OF st inv step.prems(3)] hd show ?case by simp
qed

section \<open>The claims\<close>

subsection \<open>C1: contiguous runs above the checkpoint\<close>

text \<open>
  C1, as the code has it. For every checkpoint \<open>C \<ge> 0\<close> and every log that scans without
  error, if on each stream the heights above \<open>C\<close> are, sorted, exactly
  \<open>C + 1, C + 2, \<dots>, M\<close> (a run that starts right above the checkpoint, each height
  recorded once, with the same last height \<open>M > C\<close> on both streams), and each stream
  either records \<open>C\<close> itself or records no height below \<open>C\<close>, then \<open>logHeight\<close>
  returns \<open>M\<close> with no error and writes no dump file.
\<close>

theorem logHeight_contiguous_runs:
  assumes "streams content = Inr (b, t)"
    and "0 \<le> C" and "C < M"
    and "sort (filter (\<lambda>v. C < v) b) = [C + 1 .. M]"
    and "sort (filter (\<lambda>v. C < v) t) = [C + 1 .. M]"
    and "C \<in> set b \<or> (\<forall>v\<in>set b. C \<le> v)"
    and "C \<in> set t \<or> (\<forall>v\<in>set t. C \<le> v)"
  shows "logHeight logFile (Some content) C = (Inr M, [])"
proof -
  have "outOfOrder C b = None" "outOfOrder C t = None"
    using assms by (auto intro: run_in_order)
  moreover have "lastOf b = M" "lastOf t = M"
    using assms by (auto intro: run_last)
  ultimately show ?thesis
    using assms(1) by (simp add: logHeight_def validate_def)
qed


text \<open>The theorem at the log of heights 3 to 6 with checkpoint 4.\<close>

theorem logHeight_contiguous_runs_witness:
  "streams log_3_to_6 = Inr ([4, 3, 6, 5], [3, 4, 5, 6]) \<and>
   logHeight ''cosmos-scraper.log'' (Some log_3_to_6) 4 = (Inr 6, [])"
proof -
  have s: "streams log_3_to_6 = Inr ([4, 3, 6, 5], [3, 4, 5, 6])" by code_simp
  have b: "sort (filter (\<lambda>v. 4 < v) [4, 3, 6, 5 :: int]) = [4 + 1 .. 6]" by code_simp
  have t: "sort (filter (\<lambda>v. 4 < v) [3, 4, 5, 6 :: int]) = [4 + 1 .. 6]" by code_simp
  have "logHeight ''cosmos-scraper.log'' (Some log_3_to_6) 4 = (Inr 6, [])"
    using logHeight_contiguous_runs [OF s _ _ b t] by simp
  with s show ?thesis by simp
qed

text \<open>
  The claim as it is written fails: in the log of heights 6 and 7 the heights above the
  checkpoint 4 form a contiguous run on both streams, with the same maximum 7, and
  \<open>logHeight\<close> reports the blocks out of order (got 6, want 5) and dumps them.
\<close>

theorem logHeight_run_not_at_checkpoint:
  "streams log_6_7 = Inr ([6, 7], [6, 7]) \<and>
   logHeight ''cosmos-scraper.log'' (Some log_6_7) 4 =
     (Inl (BlocksOutOfOrder 4 6 5), [(''cosmos-scraper.log.bxs-dump'', ''7\<newline>6\<newline>'')])"
  by code_simp

subsection \<open>C2: a gap above the checkpoint\<close>

text \<open>
  C2 says that a gap in one stream above a non-negative checkpoint makes \<open>logHeight\<close>
  fail with that stream's out-of-order error and dump that stream. The code does so
  when the stream records the checkpoint or records nothing below it
  (\<open>logHeight_gap_in_blocks\<close>, \<open>logHeight_gap_in_transactions\<close>). It misses the gap in
  the log of heights 3 and 6 with checkpoint 4: the checkpoint is not recorded, so its
  index stays \<open>-1\<close>, the height 3 below it is counted into the expected height
  \<open>4 + (1 - (-1)) = 6\<close>, and \<open>logHeight\<close> returns 6 with no error and no dump although
  the heights 4 and 5 are missing on both streams.
\<close>

theorem logHeight_gap_below_missing_checkpoint:
  "streams log_3_6 = Inr ([3, 6], [3, 6]) \<and>
   logHeight ''cosmos-scraper.log'' (Some log_3_6) 4 = (Inr 6, [])"
  by code_simp

subsection \<open>C3: the two streams end at different heights\<close>




subsection \<open>C4: a negative checkpoint\<close>

text \<open>
  C4, as the code has it. For every log that scans without error and every negative
  checkpoint, \<open>logHeight\<close> skips the ordering check of both streams, so that it never
  fails with an out-of-order error; the comparison of the two last heights remains.
  When they are equal, \<open>logHeight\<close> returns that height with no error. When they
  differ, it returns \<open>-1\<close> with no error if the checkpoint is at least the larger one
  (both are then negative), and fails with the crash-detected error otherwise, after
  dumping each stream that has a height.
\<close>

theorem logHeight_negative_checkpoint:
  assumes "streams content = Inr (b, t)" and "cp < 0"
  shows "logHeight logFile (Some content) cp =
          (if lastOf b = lastOf t then (Inr (lastOf b), [])
           else if max (lastOf b) (lastOf t) \<le> cp then (Inr (- 1), [])
           else (Inl (CrashDetected (lastOf b) (lastOf t)),
                 (if b = [] then [] else [(logFile @ ''.bxs-dump'', dumpText (rev (sort b)))]) @
                 (if t = [] then [] else [(logFile @ ''.txs-dump'', dumpText (rev (sort t)))])))"
proof -
  from assms(2) have "outOfOrder cp b = None" "outOfOrder cp t = None"
    by (auto intro: outOfOrder_skipped)
  with assms(1) show ?thesis by (simp add: logHeight_def validate_in_order)
qed

text \<open>The theorem at the log of heights 6 and 7, which checkpoint 4 rejects, with
  checkpoint \<open>-1\<close>.\<close>

theorem logHeight_negative_checkpoint_witness:
  "streams log_6_7 = Inr ([6, 7], [6, 7]) \<and> (- 1 :: int) < 0 \<and>
   logHeight ''cosmos-scraper.log'' (Some log_6_7) (- 1) = (Inr 7, [])"
proof -
  have s: "streams log_6_7 = Inr ([6, 7], [6, 7])" by code_simp
  have l: "lastOf [6, 7] = 7" by code_simp
  from logHeight_negative_checkpoint [OF s, of "- 1" "''cosmos-scraper.log''"] l s
  show ?thesis by simp
qed

text \<open>
  The claim as it is written fails: with checkpoint \<open>-1\<close>, the log of one block of
  height 5 and no transactions makes \<open>logHeight\<close> fail with the crash-detected error.
\<close>

theorem logHeight_negative_checkpoint_crash:
  "streams log_b5 = Inr ([5], []) \<and>
   logHeight ''cosmos-scraper.log'' (Some log_b5) (- 1) =
     (Inl (CrashDetected 5 0), [(''cosmos-scraper.log.bxs-dump'', ''5\<newline>'')])"
  by code_simp

subsection \<open>C5: a height recorded a second time\<close>

text \<open>
  C5, as the code has it. Let \<open>logHeight\<close> succeed on a log with a checkpoint, and let
  records be appended that add once more, to each stream, a height \<open>H\<close> that both
  streams already hold. \<open>logHeight\<close> returns the same height on the longer log when
  the ordering check is skipped (the checkpoint is negative, or not below the last
  height of either stream), or when \<open>H\<close> is at most the checkpoint and both streams
  record the checkpoint. The two records of a pass of the workers over \<open>H\<close> are such
  records (\<open>streams_append_pass\<close>).
\<close>

theorem logHeight_height_recorded_again:
  assumes "streams content = Inr (b, t)"
    and "streams (content @ records) = Inr (b @ [H], t @ [H])"
    and "H \<in> set b" and "H \<in> set t"
    and "cp < 0 \<or> (lastOf b \<le> cp \<and> lastOf t \<le> cp) \<or> (H \<le> cp \<and> cp \<in> set b \<and> cp \<in> set t)"
    and "logHeight logFile (Some content) cp = (Inr r, w)"
  shows "logHeight logFile (Some (content @ records)) cp = (Inr r, w)"
proof -
  from assms(1,6) have v: "validate logFile b t cp = (Inr r, w)" by (simp add: logHeight_def)
  then have o: "outOfOrder cp b = None" "outOfOrder cp t = None"
    using validate_success by blast+
  from assms(5) have "cp < 0 \<or> lastOf b \<le> cp \<or> (H \<le> cp \<and> cp \<in> set b)"
    and "cp < 0 \<or> lastOf t \<le> cp \<or> (H \<le> cp \<and> cp \<in> set t)" by auto
  with o assms(3,4) have o': "outOfOrder cp (b @ [H]) = None" "outOfOrder cp (t @ [H]) = None"
    by (auto intro: outOfOrder_again)
  have l: "lastOf (b @ [H]) = lastOf b" "lastOf (t @ [H]) = lastOf t"
    using assms(3,4) by (simp_all add: lastOf_again)
  from v o have "validate logFile (b @ [H]) (t @ [H]) cp = (Inr r, w)"
    by (simp add: validate_in_order [OF o'] validate_in_order [OF o] l split: if_splits)
  with assms(2) show ?thesis by (simp add: logHeight_def)
qed

text \<open>The theorem at the log of heights 4 to 6 with checkpoint 4, and a second pass
  over height 4.\<close>

theorem logHeight_height_recorded_again_witness:
  "streams log_4_to_6 = Inr ([4, 5, 6], [4, 5, 6]) \<and>
   streams (log_4_to_6 @ again_4) = Inr ([4, 5, 6] @ [4], [4, 5, 6] @ [4]) \<and>
   logHeight ''cosmos-scraper.log'' (Some log_4_to_6) 4 = (Inr 6, []) \<and>
   logHeight ''cosmos-scraper.log'' (Some (log_4_to_6 @ again_4)) 4 = (Inr 6, [])"
proof -
  have s: "streams log_4_to_6 = Inr ([4, 5, 6], [4, 5, 6])" by code_simp
  have s': "streams (log_4_to_6 @ again_4) = Inr ([4, 5, 6] @ [4], [4, 5, 6] @ [4])" by code_simp
  have r: "logHeight ''cosmos-scraper.log'' (Some log_4_to_6) 4 = (Inr 6, [])" by code_simp
  have "logHeight ''cosmos-scraper.log'' (Some (log_4_to_6 @ again_4)) 4 = (Inr 6, [])"
    by (rule logHeight_height_recorded_again [OF s s' _ _ _ r]) simp_all
  with s s' r show ?thesis by simp
qed

text \<open>
  The claim as it is written fails: \<open>logHeight\<close> returns 6 on the log of heights 5 and 6
  with checkpoint 4, and after a second pass over height 6 has appended its two
  records, it fails with the out-of-order error of the blocks (got 6, want 7).
\<close>

theorem logHeight_second_pass_above_checkpoint:
  "streams log_5_6 = Inr ([5, 6], [5, 6]) \<and>
   streams (log_5_6 @ again_6) = Inr ([5, 6, 6], [5, 6, 6]) \<and>
   logHeight ''cosmos-scraper.log'' (Some log_5_6) 4 = (Inr 6, []) \<and>
   logHeight ''cosmos-scraper.log'' (Some (log_5_6 @ again_6)) 4 =
     (Inl (BlocksOutOfOrder 4 6 7),
      [(''cosmos-scraper.log.bxs-dump'', ''6\<newline>6\<newline>5\<newline>'')])"
  by code_simp

subsection \<open>C8: the gap at start-up\<close>

text \<open>
  C8, as the code has it. Let \<open>logHeight\<close> return the height \<open>l0\<close> with no error, let
  the chain's height be \<open>h\<close>, and let \<open>l\<close> be the larger of \<open>l0\<close> and the checkpoint
  (the checkpoint and \<open>h\<close> being Go \<open>int\<close>s). \<open>initBC\<close> panics if and only if \<open>l > h\<close>.
  Otherwise it returns the gap with head \<open>h\<close> and with tail \<open>l + 1\<close>, unless \<open>l\<close> is the
  largest \<open>int\<close> \<open>2^63 - 1\<close> (then \<open>h\<close> is, too): there Go's \<open>l + 1\<close> wraps around and
  the tail is \<open>-2^63\<close>.
\<close>

theorem initBC_gap:
  assumes "logHeight logFile content checkpoint = (Inr l0, w)"
    and "- 9223372036854775808 \<le> checkpoint" and "h \<le> 9223372036854775807"
  shows "initBC (Inr h) logFile content checkpoint =
           (if max l0 checkpoint > h then Inl LogAheadOfChain
            else if max l0 checkpoint = 9223372036854775807
                 then Inr (- 9223372036854775808, h)
            else Inr (max l0 checkpoint + 1, h), w)"
proof -
  let ?l = "max l0 checkpoint"
  have init: "initBC (Inr h) logFile content checkpoint =
           (if ?l > h then Inl LogAheadOfChain else Inr (wrap64 (?l + 1), h), w)"
    using assms(1) by (simp add: initBC_def max_def)
  show ?thesis
  proof (cases "?l > h")
    case True
    with init show ?thesis by simp
  next
    case False
    show ?thesis
    proof (cases "?l = 9223372036854775807")
      case True
      then have "wrap64 (?l + 1) = - 9223372036854775808" by (simp add: wrap64_def)
      with init False True show ?thesis by simp
    next
      case below: False
      from False assms(3) below have "?l + 1 \<le> 9223372036854775807" by arith
      moreover from assms(2) have "- 9223372036854775808 \<le> ?l + 1" by arith
      ultimately have "wrap64 (?l + 1) = ?l + 1" by (rule wrap64_id [rotated])
      with init False below show ?thesis by simp
    qed
  qed
qed

text \<open>The theorem at the log of heights 3 to 6 with checkpoint 4: the gap is from 7 to
  the chain's height 10, and a chain of height 5 makes \<open>initBC\<close> panic.\<close>

theorem initBC_gap_witness:
  "logHeight ''cosmos-scraper.log'' (Some log_3_to_6) 4 = (Inr 6, []) \<and>
   initBC (Inr 10) ''cosmos-scraper.log'' (Some log_3_to_6) 4 = (Inr (7, 10), []) \<and>
   initBC (Inr 5) ''cosmos-scraper.log'' (Some log_3_to_6) 4 = (Inl LogAheadOfChain, [])"
proof -
  have r: "logHeight ''cosmos-scraper.log'' (Some log_3_to_6) 4 = (Inr 6, [])" by code_simp
  from initBC_gap [OF r, of 10] initBC_gap [OF r, of 5] r show ?thesis by simp
qed

text \<open>
  The claim as it is written fails: on the log whose height is the largest \<open>int\<close>, with
  the checkpoint right below it and the chain at the same height, \<open>initBC\<close> does not
  panic and the tail of the gap is not \<open>l + 1\<close> but \<open>-2^63\<close>.
\<close>

theorem initBC_gap_wraps:
  "logHeight ''cosmos-scraper.log'' (Some log_max) 9223372036854775806 =
     (Inr 9223372036854775807, []) \<and>
   initBC (Inr 9223372036854775807) ''cosmos-scraper.log'' (Some log_max) 9223372036854775806 =
     (Inr (- 9223372036854775808, 9223372036854775807), [])"
  by code_simp

subsection \<open>C6: a height the node does not have\<close>

text \<open>
  C6, as the code has it. When \<open>blockAt\<close> fails because the node reports that the
  requested height is not available, the fetch worker logs one record for that height
  on the stream of the blocks and one on the stream of the transactions, both of the
  form \<open>H unavailable (skipping): \<dots>\<close> (and none on the standard stream), sends no
  unit, and goes on to the next request. When the two records are appended to a log,
  the scan of \<open>logHeight\<close> adds the height to the heights of both streams. (The height
  is a Go \<open>int\<close>; the dates and times the \<open>log\<close> package prints hold no blank and no
  line break, and neither does the error text hold a line break.) A record
  \<open>H invalid\<close> of the standard logger would be counted for both streams as well
  (\<open>scanLine_invalid\<close>), but the worker writes none.
\<close>

theorem unavailable_height_on_both_streams:
  assumes "blockAt (Itoa h) napTime (blockResponses bcc (Itoa h)) = (Some (Inl (Failed e)), ms)"
    and "Contains e (''height '' @ Itoa h @ '' is not available'')"
    and "m = Itoa h @ '' unavailable (skipping): '' @ e"
    and "- 9223372036854775808 \<le> h" and "h < 9223372036854775808"
    and "streams content = Inr (b, t)"
    and "content = [] \<or> last content = CHR ''\<newline>''"
    and "\<forall>c\<in>set (d1 @ t1). c \<noteq> CHR '' '' \<and> c \<noteq> CHR ''\<newline>''"
    and "\<forall>c\<in>set (d2 @ t2). c \<noteq> CHR '' '' \<and> c \<noteq> CHR ''\<newline>''"
    and "CHR ''\<newline>'' \<notin> set e"
  shows "reqStep bcc unmarshal bxs txs napTime \<lparr>request.height = h\<rparr> =
           ([], ms @ [(bxsLogger, m), (txsLogger, m)], None) \<and>
         streams (content @ logLine bxsLogger d1 t1 m @ logLine txsLogger d2 t2 m) =
           Inr (b @ [h], t @ [h])"
proof
  show "reqStep bcc unmarshal bxs txs napTime \<lparr>request.height = h\<rparr> =
           ([], ms @ [(bxsLogger, m), (txsLogger, m)], None)"
    using reqStep_unavailable [OF assms(1,2)] assms(3) by simp
  let ?rest = "''unavailable (skipping): '' @ e"
  have m: "m = Itoa h @ CHR '' '' # ?rest" using assms(3) by simp
  have rest: "CHR ''\<newline>'' \<notin> set ?rest" using assms(10) by simp
  let ?content = "content @ logLine bxsLogger d1 t1 m"
  have one: "streams ?content = Inr (b @ [h], t)"
    unfolding m by (rule streams_append_record(1) [OF assms(7,6,8) rest assms(4,5)])
  have ended: "?content = [] \<or> last ?content = CHR ''\<newline>''"
    using logLine_ends [of bxsLogger d1 t1 m] by simp
  have "streams (?content @ logLine txsLogger d2 t2 m) = Inr (b @ [h], t @ [h])"
    unfolding m by (rule streams_append_record(2) [OF ended [unfolded m] one [unfolded m] assms(9) rest assms(4,5)])
  then show "streams (content @ logLine bxsLogger d1 t1 m @ logLine txsLogger d2 t2 m) =
           Inr (b @ [h], t @ [h])" by simp
qed

text \<open>The theorem at the node that has pruned height 1, on an empty log.\<close>

theorem unavailable_height_on_both_streams_witness:
  "reqStep node totalOf ''blocks'' ''transactions'' ''1m0s'' \<lparr>request.height = 1\<rparr> =
     ([], [(bxsLogger, ''1 unavailable (skipping): '' @ pruned),
           (txsLogger, ''1 unavailable (skipping): '' @ pruned)], None) \<and>
   streams ([] @ logLine bxsLogger ''2022/06/01'' ''10:00:00'' (''1 unavailable (skipping): '' @ pruned)
               @ logLine txsLogger ''2022/06/01'' ''10:00:01'' (''1 unavailable (skipping): '' @ pruned)) =
     Inr ([] @ [1], [] @ [1])"
proof -
  have i: "Itoa 1 = ''1''" by code_simp
  have a: "blockAt (Itoa 1) ''1m0s'' (blockResponses node (Itoa 1)) = (Some (Inl (Failed pruned)), [])"
    by code_simp
  have c: "Contains pruned (''height '' @ Itoa 1 @ '' is not available'')" by code_simp
  have m: "''1 unavailable (skipping): '' @ pruned = Itoa 1 @ '' unavailable (skipping): '' @ pruned"
    by (simp add: i)
  have s: "streams [] = Inr ([], [])" by code_simp
  have n: "CHR ''\<newline>'' \<notin> set pruned" by code_simp
  from unavailable_height_on_both_streams [OF a c m _ _ s _ _ _ n,
      of "''2022/06/01''" "''10:00:00''" "''2022/06/01''" "''10:00:01''" totalOf "''blocks''" "''transactions''"]
  show ?thesis by simp
qed

text \<open>
  The claim as it is written fails: for height 1, which the node reports as not
  available, the worker logs on the streams of the blocks and of the transactions, and
  nothing on the standard stream; no record holds the marker \<open>invalid\<close>.
\<close>

theorem unavailable_height_not_on_standard_stream:
  "Contains pruned ''height 1 is not available'' \<and>
   reqStep node totalOf ''blocks'' ''transactions'' ''1m0s'' \<lparr>request.height = 1\<rparr> =
     ([], [(bxsLogger, ''1 unavailable (skipping): '' @ pruned),
           (txsLogger, ''1 unavailable (skipping): '' @ pruned)], None)"
  by code_simp

subsection \<open>C7: the units of one height\<close>

text \<open>
  C7, as the code has it. For every request, the fetch worker sends zero, one or two
  units. It sends none when \<open>blockAt\<close> gives no block; when that is because the node
  reports the height as not available, the worker logs one record on each of the two
  streams and goes on. It sends the unit of the block alone when \<open>blockAt\<close> gives the
  block and \<open>transactionsAt\<close> gives no transactions; when that is because there are
  none, the worker logs the skip on the stream of the transactions and goes on. It
  sends the unit of the block and then the unit of the transactions when both are
  there.
\<close>

theorem reqStep_units:
  assumes "blockAt (Itoa h) napTime (blockResponses bcc (Itoa h)) = (rb, ms)"
    and "transactionsAt unmarshal (Itoa h) napTime (txsResponses bcc (Itoa h)) = (rt, ms')"
  shows "fst (reqStep bcc unmarshal bxs txs napTime \<lparr>request.height = h\<rparr>) =
           (case rb of
              Some (Inr blk) \<Rightarrow>
                (case rt of
                   Some (Inr (Some t)) \<Rightarrow>
                     [\<lparr>persist.height = h, datatype' = ''block'', raw = blk, col = bxs\<rparr>,
                      \<lparr>persist.height = h, datatype' = ''transactions'', raw = t, col = txs\<rparr>]
                 | _ \<Rightarrow> [\<lparr>persist.height = h, datatype' = ''block'', raw = blk, col = bxs\<rparr>])
            | _ \<Rightarrow> []) \<and>
         (rb = Some (Inr blk) \<and> rt = Some (Inr None) \<longrightarrow>
            reqStep bcc unmarshal bxs txs napTime \<lparr>request.height = h\<rparr> =
              ([\<lparr>persist.height = h, datatype' = ''block'', raw = blk, col = bxs\<rparr>],
               ms @ ms' @ [(txsLogger, Itoa h @ '' empty (skipping)'')], None)) \<and>
         (rb = Some (Inl (Failed e)) \<and>
          Contains e (''height '' @ Itoa h @ '' is not available'') \<longrightarrow>
            reqStep bcc unmarshal bxs txs napTime \<lparr>request.height = h\<rparr> =
              ([], ms @ [(bxsLogger, Itoa h @ '' unavailable (skipping): '' @ e),
                         (txsLogger, Itoa h @ '' unavailable (skipping): '' @ e)], None))"
proof (intro conjI impI)
  show "fst (reqStep bcc unmarshal bxs txs napTime \<lparr>request.height = h\<rparr>) =
           (case rb of
              Some (Inr blk) \<Rightarrow>
                (case rt of
                   Some (Inr (Some t)) \<Rightarrow>
                     [\<lparr>persist.height = h, datatype' = ''block'', raw = blk, col = bxs\<rparr>,
                      \<lparr>persist.height = h, datatype' = ''transactions'', raw = t, col = txs\<rparr>]
                 | _ \<Rightarrow> [\<lparr>persist.height = h, datatype' = ''block'', raw = blk, col = bxs\<rparr>])
            | _ \<Rightarrow> [])"
    unfolding reqStep_sent assms fst_conv by (rule refl)
  show "reqStep bcc unmarshal bxs txs napTime \<lparr>request.height = h\<rparr> =
              ([\<lparr>persist.height = h, datatype' = ''block'', raw = blk, col = bxs\<rparr>],
               ms @ ms' @ [(txsLogger, Itoa h @ '' empty (skipping)'')], None)"
    if "rb = Some (Inr blk) \<and> rt = Some (Inr None)"
  proof (rule reqStep_empty)
    from that assms(1) show "blockAt (Itoa h) napTime (blockResponses bcc (Itoa h)) = (Some (Inr blk), ms)"
      by simp
    from that assms(2)
    show "transactionsAt unmarshal (Itoa h) napTime (txsResponses bcc (Itoa h)) = (Some (Inr None), ms')"
      by simp
  qed
  show "reqStep bcc unmarshal bxs txs napTime \<lparr>request.height = h\<rparr> =
              ([], ms @ [(bxsLogger, Itoa h @ '' unavailable (skipping): '' @ e),
                         (txsLogger, Itoa h @ '' unavailable (skipping): '' @ e)], None)"
    if "rb = Some (Inl (Failed e)) \<and> Contains e (''height '' @ Itoa h @ '' is not available'')"
  proof (rule reqStep_unavailable)
    from that assms(1) show "blockAt (Itoa h) napTime (blockResponses bcc (Itoa h)) = (Some (Inl (Failed e)), ms)"
      by simp
    from that show "Contains e (''height '' @ Itoa h @ '' is not available'')" by simp
  qed
qed

text \<open>The theorem at height 3 of the node, which has the block (after one retry) and
  a transaction.\<close>

theorem reqStep_units_witness:
  "blockAt (Itoa 3) ''1m0s'' (blockResponses node (Itoa 3)) =
     (Some (Inr ''block 3''),
      [(stdLogger, ''error getting block at height 3 (will retry in 1m0s): connection refused'')]) \<and>
   transactionsAt totalOf (Itoa 3) ''1m0s'' (txsResponses node (Itoa 3)) =
     (Some (Inr (Some ''one transaction'')), []) \<and>
   fst (reqStep node totalOf ''blocks'' ''transactions'' ''1m0s'' \<lparr>request.height = 3\<rparr>) =
     [\<lparr>persist.height = 3, datatype' = ''block'', raw = ''block 3'', col = ''blocks''\<rparr>,
      \<lparr>persist.height = 3, datatype' = ''transactions'', raw = ''one transaction'',
         col = ''transactions''\<rparr>]"
proof -
  have b: "blockAt (Itoa 3) ''1m0s'' (blockResponses node (Itoa 3)) =
     (Some (Inr ''block 3''),
      [(stdLogger, ''error getting block at height 3 (will retry in 1m0s): connection refused'')])"
    by code_simp
  have t: "transactionsAt totalOf (Itoa 3) ''1m0s'' (txsResponses node (Itoa 3)) =
     (Some (Inr (Some ''one transaction'')), [])"
    by code_simp
  from reqStep_units [OF b t, of "''blocks''" "''transactions''"] b t show ?thesis by simp
qed

text \<open>
  The claim as it is written fails: height 2 of the node has a block and no
  transactions, and the worker sends exactly one unit for it, neither zero nor two.
\<close>

theorem reqStep_one_unit:
  "transactionsAt totalOf (Itoa 2) ''1m0s'' (txsResponses node (Itoa 2)) = (Some (Inr None), []) \<and>
   reqStep node totalOf ''blocks'' ''transactions'' ''1m0s'' \<lparr>request.height = 2\<rparr> =
     ([\<lparr>persist.height = 2, datatype' = ''block'', raw = ''block 2'', col = ''blocks''\<rparr>],
      [(txsLogger, ''2 empty (skipping)'')], None)"
  by code_simp

subsection \<open>C9: each height is queued once, in ascending order\<close>

text \<open>
  C9, as the code has it. Let the loop of \<open>main\<close> start with nothing queued, with a
  \<open>tail\<close> that is a Go \<open>int\<close> and a \<open>head\<close> below the largest \<open>int\<close> \<open>2^63 - 1\<close>, and let
  every height that \<open>bcHeight\<close> returns when it is polled be below \<open>2^63 - 1\<close> as well.
  Then in every state the loop reaches, the heights of the requests sent to \<open>reqChan\<close>
  are the heights from the first \<open>tail\<close> to the current \<open>tail\<close> minus one, each once
  and in this order: they are strictly ascending, no height is queued twice, and
  \<open>tail\<close> never decreases, whatever the heights polled. (With the head at \<open>2^63 - 1\<close>,
  \<open>tail++\<close> wraps around after that height is queued, and the loop goes on queuing
  from \<open>-2^63\<close>.)
\<close>

theorem queued_heights_ascending:
  assumes "rtranclp stepBelow s0 s" and "queued s0 = []"
    and "head s0 < 9223372036854775807" and "- 9223372036854775808 \<le> tail s0"
  shows "map request.height (queued s) = [tail s0 .. tail s - 1] \<and>
         sorted_wrt (<) (map request.height (queued s)) \<and>
         distinct (map request.height (queued s)) \<and>
         tail s0 \<le> tail s"
proof -
  from run_queue [OF assms]
  have q: "map request.height (queued s) = [tail s0 .. tail s - 1]" and t: "tail s0 \<le> tail s"
    by simp_all
  have "sorted_wrt (<) [tail s0 .. tail s - 1]"
    by (simp add: strict_sorted_iff)
  with q t show ?thesis by simp
qed

text \<open>The theorem at a run that starts with the gap from 7 to 8: the heights 7 and 8
  are queued, the poll gives the head 9, the height 9 is queued, the poll gives the
  lower head 5, and the process is told to stop.\<close>

theorem queued_heights_ascending_witness:
  "rtranclp stepBelow
     \<lparr>tail = 7, head = 8, queued = [], cancelled = False, panicked = False\<rparr>
     \<lparr>tail = 10, head = 5,
      queued = [\<lparr>request.height = 7\<rparr>, \<lparr>request.height = 8\<rparr>, \<lparr>request.height = 9\<rparr>],
      cancelled = True, panicked = False\<rparr> \<and>
   map request.height
     [\<lparr>request.height = 7\<rparr>, \<lparr>request.height = 8\<rparr>, \<lparr>request.height = 9\<rparr>] = [7 .. 10 - 1] \<and>
   sorted_wrt (<) (map request.height
     [\<lparr>request.height = 7\<rparr>, \<lparr>request.height = 8\<rparr>, \<lparr>request.height = 9\<rparr>])"
proof -
  let ?s0 = "\<lparr>tail = 7, head = 8, queued = [], cancelled = False, panicked = False\<rparr>"
  let ?s1 = "\<lparr>tail = 8, head = 8, queued = [\<lparr>request.height = 7\<rparr>],
              cancelled = False, panicked = False\<rparr>"
  let ?s2 = "\<lparr>tail = 9, head = 8, queued = [\<lparr>request.height = 7\<rparr>, \<lparr>request.height = 8\<rparr>],
              cancelled = False, panicked = False\<rparr>"
  let ?s3 = "\<lparr>tail = 9, head = 9, queued = [\<lparr>request.height = 7\<rparr>, \<lparr>request.height = 8\<rparr>],
              cancelled = False, panicked = False\<rparr>"
  let ?s4 = "\<lparr>tail = 10, head = 9,
              queued = [\<lparr>request.height = 7\<rparr>, \<lparr>request.height = 8\<rparr>, \<lparr>request.height = 9\<rparr>],
              cancelled = False, panicked = False\<rparr>"
  let ?s5 = "\<lparr>tail = 10, head = 5,
              queued = [\<lparr>request.height = 7\<rparr>, \<lparr>request.height = 8\<rparr>, \<lparr>request.height = 9\<rparr>],
              cancelled = False, panicked = False\<rparr>"
  let ?s6 = "\<lparr>tail = 10, head = 5,
              queued = [\<lparr>request.height = 7\<rparr>, \<lparr>request.height = 8\<rparr>, \<lparr>request.height = 9\<rparr>],
              cancelled = True, panicked = False\<rparr>"
  have w: "wrap64 8 = 8" "wrap64 9 = 9" "wrap64 10 = 10" by (simp_all add: wrap64_def)
  have "stepBelow ?s0 ?s1" using enqueue [of ?s0] by (simp add: stepBelow_def w)
  then have "rtranclp stepBelow ?s0 ?s1" by (rule r_into_rtranclp)
  moreover have "stepBelow ?s1 ?s2" using enqueue [of ?s1] by (simp add: stepBelow_def w)
  ultimately have "rtranclp stepBelow ?s0 ?s2" by (rule rtranclp.rtrancl_into_rtrancl)
  moreover have "stepBelow ?s2 ?s3" using awaken [of ?s2 9] by (simp add: stepBelow_def)
  ultimately have "rtranclp stepBelow ?s0 ?s3" by (rule rtranclp.rtrancl_into_rtrancl)
  moreover have "stepBelow ?s3 ?s4" using enqueue [of ?s3] by (simp add: stepBelow_def w)
  ultimately have "rtranclp stepBelow ?s0 ?s4" by (rule rtranclp.rtrancl_into_rtrancl)
  moreover have "stepBelow ?s4 ?s5" using awaken [of ?s4 5] by (simp add: stepBelow_def)
  ultimately have "rtranclp stepBelow ?s0 ?s5" by (rule rtranclp.rtrancl_into_rtrancl)
  moreover have "stepBelow ?s5 ?s6" using cancel [of ?s5] by (simp add: stepBelow_def)
  ultimately have run: "rtranclp stepBelow ?s0 ?s6" by (rule rtranclp.rtrancl_into_rtrancl)
  from queued_heights_ascending [OF run] run show ?thesis by simp
qed

text \<open>
  The claim as it is written fails: started with the gap from the largest \<open>int\<close> to
  itself, the loop queues that height, \<open>tail++\<close> wraps around to \<open>-2^63\<close>, which is
  again at most \<open>head\<close>, and the loop queues \<open>-2^63\<close> next. The heights queued are not
  ascending, and \<open>tail\<close> has decreased.
\<close>

theorem queued_heights_wrap_around:
  "rtranclp step start_at_max after_wrap \<and>
   queued start_at_max = [] \<and>
   map request.height (queued after_wrap) = [9223372036854775807, - 9223372036854775808] \<and>
   \<not> sorted_wrt (<) (map request.height (queued after_wrap)) \<and>
   tail after_wrap < tail start_at_max"
proof -
  let ?s1 = "\<lparr>tail = - 9223372036854775808, head = 9223372036854775807,
              queued = [\<lparr>request.height = 9223372036854775807\<rparr>],
              cancelled = False, panicked = False\<rparr>"
  have w: "wrap64 (9223372036854775807 + 1) = - 9223372036854775808"
    "wrap64 (- 9223372036854775808 + 1) = - 9223372036854775807"
    by (simp_all add: wrap64_def)
  have "step start_at_max ?s1"
    using enqueue [of start_at_max] w(1) by (simp add: start_at_max_def)
  then have "rtranclp step start_at_max ?s1" by (rule r_into_rtranclp)
  moreover have "step ?s1 after_wrap"
    using enqueue [of ?s1] w(2) by (simp add: after_wrap_def)
  ultimately have "rtranclp step start_at_max after_wrap"
    by (rule rtranclp.rtrancl_into_rtrancl)
  then show ?thesis by (simp add: start_at_max_def after_wrap_def)
qed

subsection \<open>C10: the units have a known datatype\<close>

text \<open>
  C10. Every unit a fetch worker sends to \<open>perChan\<close> has the datatype \<open>block\<close> or
  \<open>transactions\<close>; and a persist worker that receives only units sent by fetch
  workers never panics for an unknown datatype.
\<close>

theorem units_have_known_datatype:
  "(p \<in> set (fst (reqWorker bcc unmarshal bxs txs napTime reqChan)) \<longrightarrow>
      datatype' p = ''block'' \<or> datatype' p = ''transactions'') \<and>
   ((\<forall>u\<in>set perChan. \<exists>requests. u \<in> set (fst (reqWorker bcc unmarshal bxs txs napTime requests))) \<longrightarrow>
      snd (perWorker invalid napTime' db perChan) \<noteq> Some (Panicked (UnknownDatatype q)))"
proof (intro conjI impI)
  show "datatype' p = ''block'' \<or> datatype' p = ''transactions''"
    if "p \<in> set (fst (reqWorker bcc unmarshal bxs txs napTime reqChan))"
    using that by (rule reqWorker_datatype)
  show "snd (perWorker invalid napTime' db perChan) \<noteq> Some (Panicked (UnknownDatatype q))"
    if "\<forall>u\<in>set perChan. \<exists>requests. u \<in> set (fst (reqWorker bcc unmarshal bxs txs napTime requests))"
  proof (rule perWorker_known)
    from that show "\<forall>u\<in>set perChan. datatype' u = ''block'' \<or> datatype' u = ''transactions''"
      using reqWorker_datatype by blast
  qed
qed

text \<open>The theorem at the units the worker sends for the heights 1, 2 and 3 of the
  node, and at the persist worker that stores them.\<close>

theorem units_have_known_datatype_witness:
  "fst (reqWorker node totalOf ''blocks'' ''transactions'' ''1m0s'' requests_1_2_3) =
     [\<lparr>persist.height = 2, datatype' = ''block'', raw = ''block 2'', col = ''blocks''\<rparr>,
      \<lparr>persist.height = 3, datatype' = ''block'', raw = ''block 3'', col = ''blocks''\<rparr>,
      \<lparr>persist.height = 3, datatype' = ''transactions'', raw = ''one transaction'',
         col = ''transactions''\<rparr>] \<and>
   snd (perWorker wellFormed ''1m0s'' database
          (fst (reqWorker node totalOf ''blocks'' ''transactions'' ''1m0s'' requests_1_2_3))) \<noteq>
     Some (Panicked (UnknownDatatype
       \<lparr>persist.height = 2, datatype' = ''block'', raw = ''block 2'', col = ''blocks''\<rparr>))"
proof -
  let ?sent = "fst (reqWorker node totalOf ''blocks'' ''transactions'' ''1m0s'' requests_1_2_3)"
  have sent: "?sent =
     [\<lparr>persist.height = 2, datatype' = ''block'', raw = ''block 2'', col = ''blocks''\<rparr>,
      \<lparr>persist.height = 3, datatype' = ''block'', raw = ''block 3'', col = ''blocks''\<rparr>,
      \<lparr>persist.height = 3, datatype' = ''transactions'', raw = ''one transaction'',
         col = ''transactions''\<rparr>]"
    by code_simp
  have from_worker: "\<forall>u\<in>set ?sent. \<exists>requests.
          u \<in> set (fst (reqWorker node totalOf ''blocks'' ''transactions'' ''1m0s'' requests))"
    by (intro ballI exI [of _ requests_1_2_3])
  have "snd (perWorker wellFormed ''1m0s'' database ?sent) \<noteq>
     Some (Panicked (UnknownDatatype
       \<lparr>persist.height = 2, datatype' = ''block'', raw = ''block 2'', col = ''blocks''\<rparr>))"
    by (rule units_have_known_datatype [THEN conjunct2, THEN mp, OF from_worker])
  with sent show ?thesis by (simp only: simp_thms)
qed

end
